theory Spec2Isabelle
  imports Complex_Main
begin

section \<open>Python and NumPy preliminaries\<close>

text \<open>
  The exceptions that the modelled code can raise.  A function that may raise returns
  \<open>error + 'a\<close>, with \<open>Inl\<close> carrying the exception.
\<close>

datatype error = IndexError | ValueError | ZeroDivisionError | KeyError

subsection \<open>\<open>np.array_split\<close>\<close>

text \<open>
  \<open>np.array_split(ary, sections)\<close> for an integer \<open>sections\<close>, as NumPy computes it:
  \<^verbatim>\<open>
    Ntotal = len(ary)
    Nsections = int(indices_or_sections)
    if Nsections <= 0:
        raise ValueError('number sections must be larger than 0.')
    Neach_section, extras = divmod(Ntotal, Nsections)
    section_sizes = ([0] + extras * [Neach_section+1] +
                     (Nsections-extras) * [Neach_section])
    div_points = array(section_sizes).cumsum()
    sub_arrays = []
    for i in range(Nsections):
        st = div_points[i]; end = div_points[i + 1]
        sub_arrays.append(sary[st:end])
    return sub_arrays
  \<close>
\<close>

fun cumsum_from :: "nat \<Rightarrow> nat list \<Rightarrow> nat list" where
  "cumsum_from acc [] = []"
| "cumsum_from acc (x # xs) = (acc + x) # cumsum_from (acc + x) xs"

definition cumsum :: "nat list \<Rightarrow> nat list" where
  "cumsum xs = cumsum_from 0 xs"

text \<open>The slice \<open>a[st:end]\<close> for non-negative bounds (it clips at the end of the array).\<close>

definition slice :: "'a list \<Rightarrow> nat \<Rightarrow> nat \<Rightarrow> 'a list" where
  "slice a st en = take (en - st) (drop st a)"

definition section_sizes :: "nat \<Rightarrow> nat \<Rightarrow> nat list" where
  "section_sizes Ntotal Nsections =
     (let Neach_section = Ntotal div Nsections; extras = Ntotal mod Nsections
      in [0] @ replicate extras (Neach_section + 1)
             @ replicate (Nsections - extras) Neach_section)"

definition array_split :: "'a list \<Rightarrow> int \<Rightarrow> error + 'a list list" where
  "array_split ary indices_or_sections =
     (let Ntotal = length ary in
      if indices_or_sections \<le> 0 then Inl ValueError
      else
        let Nsections = nat indices_or_sections;
            div_points = cumsum (section_sizes Ntotal Nsections)
        in Inr (map (\<lambda>i. slice ary (div_points ! i) (div_points ! (i + 1)))
                  [0..<Nsections]))"

text \<open>The closed form of \<open>div_points[i]\<close>, used to reason about the split.\<close>

definition div_point :: "nat \<Rightarrow> nat \<Rightarrow> nat \<Rightarrow> nat" where
  "div_point Ntotal Nsections i =
     i * (Ntotal div Nsections) + min i (Ntotal mod Nsections)"

subsection \<open>Python containers\<close>

text \<open>
  \<open>xs[i]\<close> for a non-negative index raises \<open>IndexError\<close> out of range, \<open>d[k]\<close> raises
  \<open>KeyError\<close> for a missing key, and \<open>a // b\<close> raises \<open>ZeroDivisionError\<close> for \<open>b = 0\<close>
  (it is floor division, as \<open>div\<close> on \<open>int\<close>).  A \<open>dict\<close> keeps its keys in insertion
  order; it is an association list here.
\<close>

definition ebind :: "error + 'a \<Rightarrow> ('a \<Rightarrow> error + 'b) \<Rightarrow> error + 'b" where
  "ebind m f = (case m of Inl e \<Rightarrow> Inl e | Inr x \<Rightarrow> f x)"

definition list_index :: "'a list \<Rightarrow> nat \<Rightarrow> error + 'a" where
  "list_index xs i = (if i < length xs then Inr (xs ! i) else Inl IndexError)"

definition getitem :: "('k \<times> 'v) list \<Rightarrow> 'k \<Rightarrow> error + 'v" where
  "getitem d k = (case map_of d k of None \<Rightarrow> Inl KeyError | Some v \<Rightarrow> Inr v)"

definition floordiv :: "int \<Rightarrow> int \<Rightarrow> error + int" where
  "floordiv a b = (if b = 0 then Inl ZeroDivisionError else Inr (a div b))"

text \<open>A \<open>for\<close> loop over a list whose body may raise: the first exception ends the loop.\<close>

fun foldM :: "('a \<Rightarrow> 's \<Rightarrow> error + 's) \<Rightarrow> 'a list \<Rightarrow> 's \<Rightarrow> error + 's" where
  "foldM f [] s = Inr s"
| "foldM f (x # xs) s = (case f x s of Inl e \<Rightarrow> Inl e | Inr s' \<Rightarrow> foldM f xs s')"

subsection \<open>Floating-point values\<close>

text \<open>
  A \<open>float64\<close> is a finite number, one of the two infinities, or the not-a-number marker.
  The special values follow IEEE 754 as NumPy applies it (division by zero and invalid
  operations give \<open>inf\<close> or \<open>nan\<close> and a warning, never an exception).  The operations
  of this subsection compute a finite result exactly; the section on rounded arithmetic
  below gives the same operations with every finite result rounded to a \<open>float64\<close>.
\<close>

datatype fl = Fin real | PInf | NInf | NaN

fun is_finite :: "fl \<Rightarrow> bool" where
  "is_finite (Fin _) = True"
| "is_finite _ = False"

fun fneg :: "fl \<Rightarrow> fl" where
  "fneg (Fin a) = Fin (- a)"
| "fneg PInf = NInf"
| "fneg NInf = PInf"
| "fneg NaN = NaN"

fun fadd :: "fl \<Rightarrow> fl \<Rightarrow> fl" where
  "fadd (Fin a) (Fin b) = Fin (a + b)"
| "fadd NaN _ = NaN"
| "fadd _ NaN = NaN"
| "fadd PInf NInf = NaN"
| "fadd NInf PInf = NaN"
| "fadd PInf _ = PInf"
| "fadd _ PInf = PInf"
| "fadd NInf _ = NInf"
| "fadd _ NInf = NInf"

definition fsub :: "fl \<Rightarrow> fl \<Rightarrow> fl" where
  "fsub a b = fadd a (fneg b)"

fun fmul :: "fl \<Rightarrow> fl \<Rightarrow> fl" where
  "fmul (Fin a) (Fin b) = Fin (a * b)"
| "fmul NaN _ = NaN"
| "fmul _ NaN = NaN"
| "fmul PInf PInf = PInf"
| "fmul PInf NInf = NInf"
| "fmul NInf PInf = NInf"
| "fmul NInf NInf = PInf"
| "fmul PInf (Fin b) = (if b = 0 then NaN else if 0 < b then PInf else NInf)"
| "fmul NInf (Fin b) = (if b = 0 then NaN else if 0 < b then NInf else PInf)"
| "fmul (Fin a) PInf = (if a = 0 then NaN else if 0 < a then PInf else NInf)"
| "fmul (Fin a) NInf = (if a = 0 then NaN else if 0 < a then NInf else PInf)"

fun fdiv :: "fl \<Rightarrow> fl \<Rightarrow> fl" where
  "fdiv (Fin a) (Fin b) =
     (if b = 0 then (if a = 0 then NaN else if 0 < a then PInf else NInf)
      else Fin (a / b))"
| "fdiv NaN _ = NaN"
| "fdiv _ NaN = NaN"
| "fdiv (Fin a) _ = Fin 0"
| "fdiv PInf (Fin b) = (if 0 \<le> b then PInf else NInf)"
| "fdiv NInf (Fin b) = (if 0 \<le> b then NInf else PInf)"
| "fdiv _ _ = NaN"

fun fsqrt :: "fl \<Rightarrow> fl" where
  "fsqrt (Fin a) = (if 0 \<le> a then Fin (sqrt a) else NaN)"
| "fsqrt PInf = PInf"
| "fsqrt _ = NaN"

text \<open>\<open>np.clip(x, -1, 1)\<close> on one value.\<close>

fun clip1 :: "fl \<Rightarrow> fl" where
  "clip1 (Fin a) = Fin (min 1 (max (- 1) a))"
| "clip1 PInf = Fin 1"
| "clip1 NInf = Fin (- 1)"
| "clip1 NaN = NaN"

primrec fsum :: "fl list \<Rightarrow> fl" where
  "fsum [] = Fin 0"
| "fsum (x # xs) = fadd x (fsum xs)"

subsection \<open>\<open>np.mean\<close>, \<open>np.std\<close>, \<open>stats.zscore\<close>, \<open>np.corrcoef\<close>\<close>

text \<open>
  \<open>np.mean(a)\<close> is \<open>sum(a) / len(a)\<close>; \<open>np.std(a)\<close> is
  \<open>sqrt(sum((a - mean(a)) ** 2) / len(a))\<close> (\<open>ddof = 0\<close>).  On an empty array both
  are \<open>0 / 0\<close>, that is \<open>nan\<close>.
\<close>

definition np_mean :: "fl list \<Rightarrow> fl" where
  "np_mean a = fdiv (fsum a) (Fin (real (length a)))"

definition np_var :: "fl list \<Rightarrow> fl" where
  "np_var a =
     (let arrmean = np_mean a;
          x = map (\<lambda>v. fsub v arrmean) a
      in fdiv (fsum (map (\<lambda>d. fmul d d) x)) (Fin (real (length a))))"

definition np_std :: "fl list \<Rightarrow> fl" where
  "np_std a = fsqrt (np_var a)"

text \<open>
  \<open>scipy.stats.zscore(a)\<close> with its defaults (\<open>ddof = 0\<close>, \<open>nan_policy = 'propagate'\<close>):
  \<open>(a - a.mean()) / a.std()\<close>, and an empty array for an empty input.
\<close>

definition zscore :: "fl list \<Rightarrow> fl list" where
  "zscore a =
     (if a = [] then []
      else let mn = np_mean a; std = np_std a
           in map (\<lambda>x. fdiv (fsub x mn) std) a)"

text \<open>
  \<open>np.corrcoef(x, y)\<close> for two one-dimensional arrays: \<open>np.cov\<close> stacks them (which needs
  equal lengths, and raises \<open>ValueError\<close> otherwise), subtracts each row's mean and divides
  the products by \<open>N - 1\<close> (by \<open>0.0\<close> when \<open>N - 1 \<le> 0\<close>); \<open>corrcoef\<close> divides
  entry \<open>(a, b)\<close> by \<open>sqrt(c[a][a])\<close> and by \<open>sqrt(c[b][b])\<close> and clips to \<open>[-1, 1]\<close>.
\<close>

definition dot :: "fl list \<Rightarrow> fl list \<Rightarrow> fl" where
  "dot u v = fsum (map2 fmul u v)"

definition np_cov :: "fl list \<Rightarrow> fl list \<Rightarrow> error + fl list list" where
  "np_cov x y =
     (if length x \<noteq> length y then Inl ValueError
      else
        let X = [map (\<lambda>v. fsub v (np_mean x)) x, map (\<lambda>v. fsub v (np_mean y)) y];
            fact = (if real (length x) - 1 \<le> 0 then Fin 0 else Fin (real (length x) - 1))
        in Inr (map (\<lambda>a. map (\<lambda>b. fdiv (dot (X ! a) (X ! b)) fact) [0, 1]) [0, 1]))"

definition corrcoef :: "fl list \<Rightarrow> fl list \<Rightarrow> error + fl list list" where
  "corrcoef x y =
     ebind (np_cov x y) (\<lambda>c.
       let stddev = map (\<lambda>a. fsqrt (c ! a ! a)) [0, 1]
       in Inr (map (\<lambda>a. map (\<lambda>b. clip1 (fdiv (fdiv (c ! a ! b) (stddev ! a)) (stddev ! b)))
                            [0, 1]) [0, 1]))"

section \<open>The script\<close>

subsection \<open>Data\<close>

text \<open>
  A data frame is its list of rows.  \<open>extract_data\<close> reads the columns \<open>Date\<close>, \<open>Open\<close>
  and \<open>Close\<close>; the main loop adds \<open>Return\<close> and \<open>Normalized_Return\<close>.
\<close>

record price_row =
  Date :: string
  Open :: fl
  Close :: fl

record return_row = price_row +
  Return :: fl
  Normalized_Return :: fl

type_synonym stock_data = "(string \<times> return_row list) list"

record correlation_frame =
  index :: "string list"
  columns :: "string list"
  matrix :: "fl list list"

subsection \<open>\<open>calculate_normalized_returns_zero_mean\<close>\<close>

definition window_loop :: "fl list \<Rightarrow> fl list \<Rightarrow> fl list" where
  "window_loop window normalized_returns =
     fold (\<lambda>ret acc. acc @ [fdiv (fsub ret (np_mean window)) (np_std window)])
       window normalized_returns"

definition calculate_normalized_returns_zero_mean :: "fl list \<Rightarrow> int \<Rightarrow> error + fl list" where
  "calculate_normalized_returns_zero_mean returns window_size =
     ebind (array_split returns window_size) (\<lambda>windows.
       Inr (zscore (fold window_loop windows [])))"

definition window_size_normalize :: int where
  "window_size_normalize = 13"

subsection \<open>\<open>calculate_correlation_matrices_per_window\<close>\<close>

definition zeros :: "nat \<Rightarrow> nat \<Rightarrow> fl list list" where
  "zeros r c = replicate r (replicate c (Fin 0))"

text \<open>\<open>m[i, j] = v\<close> on a two-dimensional array.\<close>

definition setitem2 :: "fl list list \<Rightarrow> nat \<Rightarrow> nat \<Rightarrow> fl \<Rightarrow> error + fl list list" where
  "setitem2 m i j v =
     (if i < length m \<and> j < length (m ! i) then Inr (m[i := (m ! i)[j := v]])
      else Inl IndexError)"

text \<open>The value \<open>Cij_num_win\<close> that the body of the inner loop computes (lines 109 to 118).\<close>

definition Cij_num_win :: "stock_data \<Rightarrow> int \<Rightarrow> string list \<Rightarrow> nat \<Rightarrow> nat \<Rightarrow> nat \<Rightarrow> error + fl" where
  "Cij_num_win stock_data window_size company_names win_num i j =
     ebind (list_index company_names i) (\<lambda>name_i.
     ebind (getitem stock_data name_i) (\<lambda>df_i.
     ebind (list_index company_names j) (\<lambda>name_j.
     ebind (getitem stock_data name_j) (\<lambda>df_j.
     ebind (floordiv (int (length df_i)) window_size) (\<lambda>sections_i.
     ebind (array_split (map Normalized_Return df_i) sections_i) (\<lambda>window_i.
     ebind (floordiv (int (length df_j)) window_size) (\<lambda>sections_j.
     ebind (array_split (map Normalized_Return df_j) sections_j) (\<lambda>window_j.
     ebind (list_index window_i win_num) (\<lambda>wi.
       if 1 < length wi then
         ebind (list_index window_j win_num) (\<lambda>wj.
           if 1 < length wj then
             ebind (corrcoef wi wj) (\<lambda>c. Inr (c ! 0 ! 1))
           else Inr NaN)
       else Inr NaN)))))))))"

definition pair_body ::
  "stock_data \<Rightarrow> int \<Rightarrow> string list \<Rightarrow> nat \<Rightarrow> nat \<Rightarrow> nat \<Rightarrow> fl list list \<Rightarrow> error + fl list list" where
  "pair_body stock_data window_size company_names win_num i j correlation_matrix =
     ebind (Cij_num_win stock_data window_size company_names win_num i j) (\<lambda>c.
     ebind (setitem2 correlation_matrix i j c) (\<lambda>m.
     setitem2 m j i c))"

definition window_matrix :: "stock_data \<Rightarrow> int \<Rightarrow> string list \<Rightarrow> nat \<Rightarrow> error + fl list list" where
  "window_matrix stock_data window_size company_names win_num =
     (let num_companies = length company_names
      in foldM (\<lambda>i. foldM (pair_body stock_data window_size company_names win_num i)
                        [i..<num_companies])
           [0..<num_companies] (zeros num_companies num_companies))"

definition calculate_correlation_matrices_per_window ::
  "stock_data \<Rightarrow> int \<Rightarrow> error + correlation_frame list" where
  "calculate_correlation_matrices_per_window stock_data window_size =
     (let company_names = map fst stock_data in
      ebind (list_index company_names 0) (\<lambda>first_company.
      ebind (getitem stock_data first_company) (\<lambda>df_first.
      ebind (floordiv (int (length (map Normalized_Return df_first))) window_size)
        (\<lambda>windows_count.
      foldM (\<lambda>win_num correlation_matrices.
               ebind (window_matrix stock_data window_size company_names win_num) (\<lambda>m.
                 Inr (correlation_matrices @
                      [\<lparr>index = company_names, columns = company_names, matrix = m\<rparr>])))
        [0..<nat windows_count] []))))"

definition window_size_correlation :: int where
  "window_size_correlation = 44"

subsection \<open>The main loop\<close>

text \<open>
  \<open>df['Return'] = (df['Close'] - df['Open']) / df['Open']\<close>: the columns of one frame
  share its index, so the operations are element by element.
\<close>

definition series_sub :: "fl list \<Rightarrow> fl list \<Rightarrow> fl list" where
  "series_sub a b = map2 fsub a b"

definition series_div :: "fl list \<Rightarrow> fl list \<Rightarrow> fl list" where
  "series_div a b = map2 fdiv a b"

definition return_series :: "price_row list \<Rightarrow> fl list" where
  "return_series df = series_div (series_sub (map Close df) (map Open df)) (map Open df)"

text \<open>Assigning a column whose length is not the frame's raises \<open>ValueError\<close>.\<close>

definition process_company :: "price_row list \<Rightarrow> error + return_row list" where
  "process_company df =
     (let ret = return_series df in
      ebind (calculate_normalized_returns_zero_mean ret window_size_normalize) (\<lambda>norm.
        if length ret \<noteq> length df \<or> length norm \<noteq> length df then Inl ValueError
        else Inr (map (\<lambda>(r, x, y). \<lparr>Date = Date r, Open = Open r, Close = Close r,
                                      Return = x, Normalized_Return = y\<rparr>)
                    (zip df (zip ret norm)))))"

fun process_all :: "(string \<times> price_row list) list \<Rightarrow> error + stock_data" where
  "process_all [] = Inr []"
| "process_all ((company, df) # rest) =
     ebind (process_company df) (\<lambda>df'.
     ebind (process_all rest) (\<lambda>rest'. Inr ((company, df') # rest')))"

definition run_analysis :: "(string \<times> price_row list) list \<Rightarrow> error + correlation_frame list" where
  "run_analysis raw =
     ebind (process_all raw) (\<lambda>stock_data.
       calculate_correlation_matrices_per_window stock_data window_size_correlation)"

subsection \<open>Auxiliary notions for the proofs\<close>

text \<open>
  A square matrix of side \<open>n\<close>, and the index pairs \<open>(i, j)\<close> with \<open>i \<le> j < n\<close> in the
  order in which the two nested loops of the engine visit them.
\<close>

definition dims :: "nat \<Rightarrow> fl list list \<Rightarrow> bool" where
  "dims n m \<longleftrightarrow> length m = n \<and> (\<forall>r\<in>set m. length r = n)"

definition pairs :: "nat \<Rightarrow> (nat \<times> nat) list" where
  "pairs n = concat (map (\<lambda>i. map (Pair i) [i..<n]) [0..<n])"

text \<open>
  \<open>stock_data[company_names[i]]\<close>, and the list \<open>window_i\<close> that the engine splits it into.
\<close>

definition instrument :: "stock_data \<Rightarrow> nat \<Rightarrow> return_row list" where
  "instrument sd i = projr (getitem sd (map fst sd ! i))"

definition windows_of :: "stock_data \<Rightarrow> int \<Rightarrow> nat \<Rightarrow> error + fl list list" where
  "windows_of sd ws i =
     array_split (map Normalized_Return (instrument sd i))
       (int (length (instrument sd i)) div ws)"

text \<open>A frame with the given \<open>Normalized_Return\<close> column, for examples.\<close>

definition sample_frame :: "fl list \<Rightarrow> return_row list" where
  "sample_frame vs =
     map (\<lambda>v. \<lparr>Date = ''2020-01-01'', Open = Fin 1, Close = Fin 1, Return = Fin 0,
                Normalized_Return = v\<rparr>) vs"

text \<open>
  The spec's words for the two passes of the normalizer: within a chunk every value \<open>v\<close>
  becomes \<open>(v - mean(chunk)) / std(chunk)\<close>; the concatenation is then transformed by
  subtracting the global mean and dividing by the global population standard deviation.
  The population standard deviation of real numbers divides by their count.
\<close>

definition per_chunk_zscore :: "fl list \<Rightarrow> fl list" where
  "per_chunk_zscore chunk = map (\<lambda>v. fdiv (fsub v (np_mean chunk)) (np_std chunk)) chunk"

definition global_zscore :: "fl list \<Rightarrow> fl list" where
  "global_zscore xs = map (\<lambda>x. fdiv (fsub x (np_mean xs)) (np_std xs)) xs"



section \<open>Rounded floating-point arithmetic\<close>

subsection \<open>Rounding to a \<open>float64\<close>\<close>

text \<open>
  IEEE 754 binary64 rounding, to nearest with ties to even.  A real number \<open>x \<noteq> 0\<close> with
  \<open>2^e \<le> |x| < 2^(e+1)\<close> goes to the nearest multiple of \<open>2^(e-52)\<close> (of \<open>2^(-1074)\<close> below the
  normal range), to the even multiple when two are equally near, and to an infinity when
  that multiple reaches \<open>2^1024\<close>.  The sign of zero is not modelled.
\<close>

definition round_half_even :: "real \<Rightarrow> int" where
  "round_half_even x =
     (let n = \<lfloor>x\<rfloor>; f = x - of_int n
      in if f < 1 / 2 then n else if 1 / 2 < f then n + 1
         else if even n then n else n + 1)"

definition to_double :: "real \<Rightarrow> fl" where
  "to_double x =
     (if x = 0 then Fin 0
      else
        let e = max \<lfloor>log 2 \<bar>x\<bar>\<rfloor> (- 1022);
            q = 2 powi (e - 52);
            r = of_int (round_half_even (x / q)) * q
        in if 2 powi 1024 \<le> \<bar>r\<bar> then (if 0 < x then PInf else NInf) else Fin r)"

text \<open>
  The operations of a \<open>float64\<close> with every finite result rounded by \<open>pack\<close>:
  \<open>to_double\<close> gives the arithmetic of the machine, \<open>Fin\<close> the exact arithmetic of the
  operations above.  A non-finite operand and a division by zero give what they give there.
\<close>

fun fadd_r :: "(real \<Rightarrow> fl) \<Rightarrow> fl \<Rightarrow> fl \<Rightarrow> fl" where
  "fadd_r pack (Fin a) (Fin b) = pack (a + b)"
| "fadd_r pack a b = fadd a b"

definition fsub_r :: "(real \<Rightarrow> fl) \<Rightarrow> fl \<Rightarrow> fl \<Rightarrow> fl" where
  "fsub_r pack a b = fadd_r pack a (fneg b)"

fun fmul_r :: "(real \<Rightarrow> fl) \<Rightarrow> fl \<Rightarrow> fl \<Rightarrow> fl" where
  "fmul_r pack (Fin a) (Fin b) = pack (a * b)"
| "fmul_r pack a b = fmul a b"

fun fdiv_r :: "(real \<Rightarrow> fl) \<Rightarrow> fl \<Rightarrow> fl \<Rightarrow> fl" where
  "fdiv_r pack (Fin a) (Fin b) = (if b = 0 then fdiv (Fin a) (Fin b) else pack (a / b))"
| "fdiv_r pack a b = fdiv a b"

fun fsqrt_r :: "(real \<Rightarrow> fl) \<Rightarrow> fl \<Rightarrow> fl" where
  "fsqrt_r pack (Fin a) = (if 0 \<le> a then pack (sqrt a) else NaN)"
| "fsqrt_r pack a = fsqrt a"

subsection \<open>\<open>np.mean\<close>, \<open>np.std\<close> and the normalizer in rounded arithmetic\<close>

text \<open>
  \<open>np.add.reduce\<close> on a \<open>float64\<close> array, which is behind \<open>np.mean\<close> and \<open>np.std\<close>.  NumPy
  adds fewer than eight elements from left to right; up to 128 elements it keeps eight
  interleaved partial sums, adds them in pairs and then adds the elements that are left;
  a longer array it splits in two (pairwise summation).  The reduction starts from the
  identity \<open>0\<close>.
\<close>

function pairwise_sum :: "(real \<Rightarrow> fl) \<Rightarrow> fl list \<Rightarrow> fl" where
  "pairwise_sum pack a =
     (let n = length a in
      if n < 8 then fold (\<lambda>x res. fadd_r pack res x) a (Fin 0)
      else if n \<le> 128 then
        let m = n - n mod 8;
            r = map (\<lambda>j. fold (\<lambda>i rj. fadd_r pack rj (a ! (i + j)))
                           (map ((*) 8) [1..<m div 8]) (a ! j)) [0..<8];
            res = fadd_r pack
                    (fadd_r pack (fadd_r pack (r ! 0) (r ! 1)) (fadd_r pack (r ! 2) (r ! 3)))
                    (fadd_r pack (fadd_r pack (r ! 4) (r ! 5)) (fadd_r pack (r ! 6) (r ! 7)))
        in fold (\<lambda>x res. fadd_r pack res x) (drop m a) res
      else
        let n2 = n div 2 - (n div 2) mod 8
        in fadd_r pack (pairwise_sum pack (take n2 a)) (pairwise_sum pack (drop n2 a)))"
  by pat_completeness auto

termination
  by (relation "measure (\<lambda>(pack, a). length a)") auto

definition np_sum_r :: "(real \<Rightarrow> fl) \<Rightarrow> fl list \<Rightarrow> fl" where
  "np_sum_r pack a = fadd_r pack (Fin 0) (pairwise_sum pack a)"

text \<open>
  \<open>np.mean\<close>, \<open>np.std\<close>, \<open>stats.zscore\<close> and the normalizer over the rounded operations.
\<close>

definition np_mean_r :: "(real \<Rightarrow> fl) \<Rightarrow> fl list \<Rightarrow> fl" where
  "np_mean_r pack a = fdiv_r pack (np_sum_r pack a) (Fin (real (length a)))"

definition np_var_r :: "(real \<Rightarrow> fl) \<Rightarrow> fl list \<Rightarrow> fl" where
  "np_var_r pack a =
     (let arrmean = np_mean_r pack a;
          x = map (\<lambda>v. fsub_r pack v arrmean) a
      in fdiv_r pack (np_sum_r pack (map (\<lambda>d. fmul_r pack d d) x)) (Fin (real (length a))))"

definition np_std_r :: "(real \<Rightarrow> fl) \<Rightarrow> fl list \<Rightarrow> fl" where
  "np_std_r pack a = fsqrt_r pack (np_var_r pack a)"

definition zscore_r :: "(real \<Rightarrow> fl) \<Rightarrow> fl list \<Rightarrow> fl list" where
  "zscore_r pack a =
     (if a = [] then []
      else let mn = np_mean_r pack a; std = np_std_r pack a
           in map (\<lambda>x. fdiv_r pack (fsub_r pack x mn) std) a)"

definition window_loop_r :: "(real \<Rightarrow> fl) \<Rightarrow> fl list \<Rightarrow> fl list \<Rightarrow> fl list" where
  "window_loop_r pack window normalized_returns =
     fold (\<lambda>ret acc. acc @ [fdiv_r pack (fsub_r pack ret (np_mean_r pack window))
                                 (np_std_r pack window)])
       window normalized_returns"

definition calculate_normalized_returns_zero_mean_r ::
  "(real \<Rightarrow> fl) \<Rightarrow> fl list \<Rightarrow> int \<Rightarrow> error + fl list" where
  "calculate_normalized_returns_zero_mean_r pack returns window_size =
     ebind (array_split returns window_size) (\<lambda>windows.
       Inr (zscore_r pack (fold (window_loop_r pack) windows [])))"

text \<open>
  The values that the inner loop of the normalizer appends for one chunk.
\<close>

definition per_chunk_zscore_r :: "(real \<Rightarrow> fl) \<Rightarrow> fl list \<Rightarrow> fl list" where
  "per_chunk_zscore_r pack chunk =
     map (\<lambda>v. fdiv_r pack (fsub_r pack v (np_mean_r pack chunk)) (np_std_r pack chunk)) chunk"

text \<open>
  Two \<open>float64\<close> values: the one nearest to \<open>0.1\<close>, and \<open>0.9999999999999998\<close>, which is
  \<open>1 - 2^(-52)\<close>.
\<close>

definition tenth :: real where
  "tenth = 3602879701896397 / 36028797018963968"

definition below_one :: real where
  "below_one = 4503599627370495 / 4503599627370496"

text \<open>
  A sum carries the special values of its terms: it is \<open>nan\<close> when a term is \<open>nan\<close>, and
  an infinity of the same sign or \<open>nan\<close> when a term is an infinity.
\<close>

definition carries :: "fl set \<Rightarrow> fl \<Rightarrow> bool" where
  "carries S v \<longleftrightarrow>
     (NaN \<in> S \<longrightarrow> v = NaN) \<and> (PInf \<in> S \<longrightarrow> v = PInf \<or> v = NaN)
     \<and> (NInf \<in> S \<longrightarrow> v = NInf \<or> v = NaN)"

subsection \<open>The correlation engine over a given \<open>np.corrcoef\<close>\<close>

text \<open>
  The engine with \<open>np.corrcoef\<close> as a parameter \<open>corr\<close>, so that it runs over rounded
  arithmetic as well; with the exact \<open>corrcoef\<close> it is the engine above.
\<close>

definition Cij_num_win_r ::
  "(fl list \<Rightarrow> fl list \<Rightarrow> error + fl list list) \<Rightarrow> stock_data \<Rightarrow> int \<Rightarrow> string list \<Rightarrow> nat \<Rightarrow> nat \<Rightarrow> nat \<Rightarrow> error + fl" where
  "Cij_num_win_r corr stock_data window_size company_names win_num i j =
     ebind (list_index company_names i) (\<lambda>name_i.
     ebind (getitem stock_data name_i) (\<lambda>df_i.
     ebind (list_index company_names j) (\<lambda>name_j.
     ebind (getitem stock_data name_j) (\<lambda>df_j.
     ebind (floordiv (int (length df_i)) window_size) (\<lambda>sections_i.
     ebind (array_split (map Normalized_Return df_i) sections_i) (\<lambda>window_i.
     ebind (floordiv (int (length df_j)) window_size) (\<lambda>sections_j.
     ebind (array_split (map Normalized_Return df_j) sections_j) (\<lambda>window_j.
     ebind (list_index window_i win_num) (\<lambda>wi.
       if 1 < length wi then
         ebind (list_index window_j win_num) (\<lambda>wj.
           if 1 < length wj then
             ebind (corr wi wj) (\<lambda>c. Inr (c ! 0 ! 1))
           else Inr NaN)
       else Inr NaN)))))))))"

definition pair_body_r ::
  "(fl list \<Rightarrow> fl list \<Rightarrow> error + fl list list) \<Rightarrow> stock_data \<Rightarrow> int \<Rightarrow> string list \<Rightarrow> nat \<Rightarrow> nat \<Rightarrow> nat \<Rightarrow> fl list list \<Rightarrow> error + fl list list" where
  "pair_body_r corr stock_data window_size company_names win_num i j correlation_matrix =
     ebind (Cij_num_win_r corr stock_data window_size company_names win_num i j) (\<lambda>c.
     ebind (setitem2 correlation_matrix i j c) (\<lambda>m.
     setitem2 m j i c))"

definition window_matrix_r ::
  "(fl list \<Rightarrow> fl list \<Rightarrow> error + fl list list) \<Rightarrow> stock_data \<Rightarrow> int \<Rightarrow> string list \<Rightarrow> nat \<Rightarrow> error + fl list list" where
  "window_matrix_r corr stock_data window_size company_names win_num =
     (let num_companies = length company_names
      in foldM (\<lambda>i. foldM (pair_body_r corr stock_data window_size company_names win_num i)
                        [i..<num_companies])
           [0..<num_companies] (zeros num_companies num_companies))"

definition calculate_correlation_matrices_per_window_r ::
  "(fl list \<Rightarrow> fl list \<Rightarrow> error + fl list list) \<Rightarrow> stock_data \<Rightarrow> int \<Rightarrow> error + correlation_frame list" where
  "calculate_correlation_matrices_per_window_r corr stock_data window_size =
     (let company_names = map fst stock_data in
      ebind (list_index company_names 0) (\<lambda>first_company.
      ebind (getitem stock_data first_company) (\<lambda>df_first.
      ebind (floordiv (int (length (map Normalized_Return df_first))) window_size)
        (\<lambda>windows_count.
      foldM (\<lambda>win_num correlation_matrices.
               ebind (window_matrix_r corr stock_data window_size company_names win_num) (\<lambda>m.
                 Inr (correlation_matrices @
                      [\<lparr>index = company_names, columns = company_names, matrix = m\<rparr>])))
        [0..<nat windows_count] []))))"

subsection \<open>\<open>np.corrcoef\<close> in rounded arithmetic\<close>

text \<open>
  \<open>np.cov\<close> and \<open>np.corrcoef\<close> over the rounded operations.  The products of the rows are
  an \<open>np.dot\<close>, which NumPy hands to the BLAS library: the order of its additions and its
  use of fused multiply-add depend on the build, so the product of two rows is a
  parameter \<open>blas_dot\<close>.  \<open>np.cov\<close> multiplies the products by the \<open>float64\<close> \<open>1 / fact\<close>.
\<close>

definition np_cov_r ::
  "(real \<Rightarrow> fl) \<Rightarrow> (fl list \<Rightarrow> fl list \<Rightarrow> fl) \<Rightarrow> fl list \<Rightarrow> fl list \<Rightarrow> error + fl list list" where
  "np_cov_r pack blas_dot x y =
     (if length x \<noteq> length y then Inl ValueError
      else
        let X = [map (\<lambda>v. fsub_r pack v (np_mean_r pack x)) x,
                 map (\<lambda>v. fsub_r pack v (np_mean_r pack y)) y];
            fact = (if real (length x) - 1 \<le> 0 then Fin 0 else Fin (real (length x) - 1))
        in Inr (map (\<lambda>a. map (\<lambda>b. fmul_r pack (blas_dot (X ! a) (X ! b))
                                    (fdiv_r pack (Fin 1) fact)) [0, 1]) [0, 1]))"

definition corrcoef_r ::
  "(real \<Rightarrow> fl) \<Rightarrow> (fl list \<Rightarrow> fl list \<Rightarrow> fl) \<Rightarrow> fl list \<Rightarrow> fl list \<Rightarrow> error + fl list list" where
  "corrcoef_r pack blas_dot x y =
     ebind (np_cov_r pack blas_dot x y) (\<lambda>c.
       let stddev = map (\<lambda>a. fsqrt_r pack (c ! a ! a)) [0, 1]
       in Inr (map (\<lambda>a. map (\<lambda>b. clip1 (fdiv_r pack (fdiv_r pack (c ! a ! b) (stddev ! a))
                                           (stddev ! b)))
                            [0, 1]) [0, 1]))"

text \<open>
  A product of two rows that multiplies and adds in the order of the elements.
\<close>

definition dot_r :: "(real \<Rightarrow> fl) \<Rightarrow> fl list \<Rightarrow> fl list \<Rightarrow> fl" where
  "dot_r pack u v =
     fold (\<lambda>(a, b) acc. fadd_r pack acc (fmul_r pack a b)) (zip u v) (Fin 0)"

text \<open>
  The unit roundoff of \<open>float64\<close>: half the distance from \<open>1\<close> to the next larger value.
\<close>

definition unit_roundoff :: real where
  "unit_roundoff = 1 / 2 ^ 53"

section \<open>Properties of \<open>np.array_split\<close>\<close>

lemma length_cumsum_from: "length (cumsum_from a xs) = length xs"
  by (induction xs arbitrary: a) auto

lemma nth_cumsum_from:
  "i < length xs \<Longrightarrow> cumsum_from a xs ! i = a + sum_list (take (Suc i) xs)"
proof (induction xs arbitrary: a i)
  case Nil
  then show ?case by simp
next
  case (Cons x xs)
  show ?case
  proof (cases i)
    case 0
    then show ?thesis by simp
  next
    case (Suc k)
    with Cons.prems have "k < length xs" by simp
    from Cons.IH [OF this, of "a + x"] Suc show ?thesis by simp
  qed
qed

lemma length_section_sizes: "0 < k \<Longrightarrow> length (section_sizes n k) = Suc k"
  by (simp add: section_sizes_def Let_def less_imp_le)

lemma nth_div_points:
  assumes "0 < k" "i \<le> k"
  shows "cumsum (section_sizes n k) ! i = div_point n k i"
proof -
  have e: "n mod k \<le> k" using assms by (simp add: less_imp_le)
  have "i < length (section_sizes n k)" using assms by (simp add: length_section_sizes)
  then have "cumsum (section_sizes n k) ! i = sum_list (take (Suc i) (section_sizes n k))"
    by (simp add: cumsum_def nth_cumsum_from)
  also have "\<dots> = sum_list (take i (replicate (n mod k) (Suc (n div k))
                                      @ replicate (k - n mod k) (n div k)))"
    by (simp add: section_sizes_def Let_def)
  also have "\<dots> = div_point n k i"
    using assms e by (auto simp: div_point_def sum_list_replicate min_def algebra_simps)
  finally show ?thesis .
qed

lemma div_point_0: "div_point n k 0 = 0"
  by (simp add: div_point_def)

lemma div_point_last:
  assumes "0 < k"
  shows "div_point n k k = n"
proof -
  have "n mod k < k" using assms by simp
  then have "min k (n mod k) = n mod k" by simp
  then show ?thesis by (simp add: div_point_def)
qed

lemma div_point_Suc:
  "div_point n k (Suc i) = div_point n k i + (if i < n mod k then n div k + 1 else n div k)"
  by (simp add: div_point_def min_def)

lemma div_point_mono: "i \<le> j \<Longrightarrow> div_point n k i \<le> div_point n k j"
  unfolding div_point_def by (intro add_mono mult_right_mono min.mono) auto

lemma array_split_eq:
  assumes "0 < W"
  shows "array_split xs W =
           Inr (map (\<lambda>i. slice xs (div_point (length xs) (nat W) i)
                                  (div_point (length xs) (nat W) (Suc i)))
                  [0..<nat W])"
  using assms by (simp add: array_split_def Let_def nth_div_points)

lemma div_point_Suc_le:
  assumes "0 < k" "i < k"
  shows "div_point n k (Suc i) \<le> n"
proof -
  have "div_point n k (Suc i) \<le> div_point n k k"
    using assms by (intro div_point_mono) simp
  then show ?thesis using assms by (simp add: div_point_last)
qed

lemma length_slice_div_point:
  assumes "0 < k" "i < k"
  shows "length (slice xs (div_point (length xs) k i) (div_point (length xs) k (Suc i)))
          = (if i < length xs mod k then length xs div k + 1 else length xs div k)"
  using div_point_Suc_le [OF assms, of "length xs"]
  by (auto simp: slice_def div_point_Suc)

lemma concat_slices:
  assumes "\<And>i. i < m \<Longrightarrow> d i \<le> d (Suc i)" "d 0 = 0"
  shows "concat (map (\<lambda>i. slice xs (d i) (d (Suc i))) [0..<m]) = take (d m) xs"
  using assms
proof (induction m)
  case 0
  then show ?case by simp
next
  case (Suc m)
  then have IH: "concat (map (\<lambda>i. slice xs (d i) (d (Suc i))) [0..<m]) = take (d m) xs"
    by simp
  have le: "d m \<le> d (Suc m)" using Suc.prems by simp
  have "take (d (Suc m)) xs = take (d m) xs @ take (d (Suc m) - d m) (drop (d m) xs)"
    using le by (metis le_add_diff_inverse take_add)
  then show ?case using IH by (simp add: slice_def)
qed

lemma concat_array_split:
  assumes "0 < W" "array_split xs W = Inr chunks"
  shows "concat chunks = xs"
proof -
  have k: "0 < nat W" using assms by simp
  have "concat chunks = take (div_point (length xs) (nat W) (nat W)) xs"
    using assms(2) unfolding array_split_eq [OF assms(1)]
    by (auto simp: div_point_0 div_point_mono intro!: concat_slices)
  then show ?thesis using k by (simp add: div_point_last)
qed

lemma length_array_split:
  assumes "0 < W" "array_split xs W = Inr chunks"
  shows "length chunks = nat W"
  using assms(2) unfolding array_split_eq [OF assms(1)] by auto

lemma nth_array_split:
  assumes "0 < W" "array_split xs W = Inr chunks" "k < nat W"
  shows "chunks ! k = slice xs (div_point (length xs) (nat W) k)
                               (div_point (length xs) (nat W) (Suc k))"
  using assms(2,3) unfolding array_split_eq [OF assms(1)] by auto

lemma length_nth_array_split:
  assumes "0 < W" "array_split xs W = Inr chunks" "k < nat W"
  shows "length (chunks ! k) =
           length xs div nat W + (if k < length xs mod nat W then 1 else 0)"
proof -
  have "0 < nat W" using assms(1) by simp
  from length_slice_div_point [OF this assms(3), of xs] show ?thesis
    by (simp add: nth_array_split [OF assms])
qed

section \<open>The window normalizer\<close>

text \<open>
  C2.  For a sequence of length \<open>N\<close> and a window size \<open>W > 0\<close>, the normalizer works on
  the result of \<open>np.array_split\<close>: exactly \<open>W\<close> chunks that are contiguous and in order
  (their concatenation is the input), chunk \<open>k\<close> of size \<open>N div W + 1\<close> for
  \<open>k < N mod W\<close> and \<open>N div W\<close> otherwise.  For \<open>N = 10\<close> and \<open>W = 3\<close> the sizes are
  \<open>[4, 3, 3]\<close>.
\<close>

theorem normalizer_partition:
  assumes "0 < W"
  shows "\<exists>chunks. array_split xs W = Inr chunks
           \<and> calculate_normalized_returns_zero_mean xs W
               = Inr (zscore (fold window_loop chunks []))
           \<and> length chunks = nat W
           \<and> concat chunks = xs
           \<and> (\<forall>k<nat W. length (chunks ! k)
                 = length xs div nat W + (if k < length xs mod nat W then 1 else 0))
           \<and> (length xs = 10 \<and> W = 3 \<longrightarrow> map length chunks = [4, 3, 3])"
proof -
  obtain chunks where c: "array_split xs W = Inr chunks"
    using assms by (simp add: array_split_eq)
  have len: "length chunks = nat W"
    by (rule length_array_split [OF assms c])
  have sizes: "\<forall>k<nat W. length (chunks ! k)
                 = length xs div nat W + (if k < length xs mod nat W then 1 else 0)"
    using length_nth_array_split [OF assms c] by blast
  have ten: "map length chunks = [4, 3, 3]" if "length xs = 10" "W = 3"
  proof (rule nth_equalityI)
    show "length (map length chunks) = length [4, 3, 3::nat]"
      using len that by simp
    fix k assume "k < length (map length chunks)"
    then have k: "k < 3" using len that by simp
    then have "k = 0 \<or> k = 1 \<or> k = 2" by arith
    moreover have "length (chunks ! k) = 10 div 3 + (if k < 10 mod 3 then 1 else 0)"
      using sizes k that by simp
    ultimately show "map length chunks ! k = [4, 3, 3] ! k"
      using k len that by auto
  qed
  show ?thesis
    using c len sizes ten concat_array_split [OF assms c]
    by (simp add: calculate_normalized_returns_zero_mean_def ebind_def)
qed

theorem normalizer_partition_witness:
  "\<exists>chunks. array_split (map Fin [1, 2, 3, 4, 5, 6, 7, 8, 9, 10]) 3 = Inr chunks
      \<and> length chunks = 3
      \<and> concat chunks = map Fin [1, 2, 3, 4, 5, 6, 7, 8, 9, 10]
      \<and> map length chunks = [4, 3, 3]"
  using normalizer_partition [of 3 "map Fin [1, 2, 3, 4, 5, 6, 7, 8, 9, 10]"]
  by auto

section \<open>The windowed correlation engine\<close>

text \<open>
  C10.  For an empty mapping, \<open>company_names[0]\<close> raises \<open>IndexError\<close>, whatever the
  window size: the engine does not return an empty list of matrices.
\<close>

theorem engine_empty_mapping:
  "calculate_correlation_matrices_per_window [] window_size = Inl IndexError"
  by (simp add: calculate_correlation_matrices_per_window_def list_index_def ebind_def)

subsection \<open>Loops and matrix updates\<close>

lemma ebind_Inr_iff: "ebind m f = Inr y \<longleftrightarrow> (\<exists>x. m = Inr x \<and> f x = Inr y)"
  by (cases m) (auto simp: ebind_def)

lemma ebind_Inr [simp]: "ebind (Inr x) f = f x"
  by (simp add: ebind_def)

lemma ebind_Inl [simp]: "ebind (Inl e) f = Inl e"
  by (simp add: ebind_def)

lemma foldM_append: "foldM f (xs @ ys) s = ebind (foldM f xs s) (foldM f ys)"
  by (induction xs arbitrary: s) (auto simp: ebind_def split: sum.splits)

lemma foldM_map_Pair:
  "foldM (\<lambda>(i, j). g i j) (map (Pair i) js) s = foldM (g i) js s"
  by (induction js arbitrary: s) (auto split: sum.splits)

lemma foldM_nested:
  "foldM (\<lambda>i. foldM (g i) (js i)) is s
     = foldM (\<lambda>(i, j). g i j) (concat (map (\<lambda>i. map (Pair i) (js i)) is)) s"
proof (induction "is" arbitrary: s)
  case Nil
  then show ?case by simp
next
  case (Cons i "is")
  show ?case
    by (simp add: foldM_append foldM_map_Pair Cons.IH ebind_def split: sum.splits)
qed

lemma set_pairs: "set (pairs n) = {(i, j). i \<le> j \<and> j < n}"
  by (fastforce simp: pairs_def)

lemma dims_zeros: "dims n (zeros n n)"
  by (simp add: dims_def zeros_def)

lemma nth_zeros: "a < n \<Longrightarrow> b < n \<Longrightarrow> zeros n n ! a ! b = Fin 0"
  by (simp add: zeros_def)

lemma setitem2_dims:
  assumes "dims n m" "i < n" "j < n"
  shows "\<exists>m'. setitem2 m i j v = Inr m' \<and> dims n m'
           \<and> (\<forall>a<n. \<forall>b<n. m' ! a ! b = (if a = i \<and> b = j then v else m ! a ! b))"
proof -
  have l: "length m = n" "length (m ! i) = n" using assms by (auto simp: dims_def)
  have "length r = n" if "r \<in> set (m[i := (m ! i)[j := v]])" for r
  proof -
    from that set_update_subset_insert [of m i "(m ! i)[j := v]"]
    have "r = (m ! i)[j := v] \<or> r \<in> set m" by blast
    then show ?thesis using l assms(1) by (auto simp: dims_def)
  qed
  then have "dims n (m[i := (m ! i)[j := v]])"
    using l by (simp add: dims_def)
  moreover have "\<forall>a<n. \<forall>b<n. m[i := (m ! i)[j := v]] ! a ! b = (if a = i \<and> b = j then v else m ! a ! b)"
    using l assms by (auto simp: nth_list_update)
  ultimately show ?thesis using l assms by (simp add: setitem2_def)
qed

lemma if_merge:
  "x = (if P then v else y) \<Longrightarrow> y = (if Q then v else z) \<Longrightarrow> x = (if Q \<or> P then v else z)"
  by auto

lemma pair_body_Inr:
  assumes "pair_body sd ws names w i j m = Inr m'" "dims n m" "i < n" "j < n"
  shows "\<exists>v. Cij_num_win sd ws names w i j = Inr v \<and> dims n m'
           \<and> (\<forall>a<n. \<forall>b<n. m' ! a ! b
                 = (if (a = i \<and> b = j) \<or> (a = j \<and> b = i) then v else m ! a ! b))"
proof -
  from assms(1) obtain v m1 where
    v: "Cij_num_win sd ws names w i j = Inr v" and
    m1: "setitem2 m i j v = Inr m1" and m': "setitem2 m1 j i v = Inr m'"
    by (auto simp: pair_body_def ebind_Inr_iff)
  from setitem2_dims [OF assms(2,3,4), of v] m1
  have d1: "dims n m1" and e1: "\<forall>a<n. \<forall>b<n. m1 ! a ! b = (if a = i \<and> b = j then v else m ! a ! b)"
    by auto
  from setitem2_dims [OF d1 assms(4,3), of v] m'
  have d2: "dims n m'" and e2: "\<forall>a<n. \<forall>b<n. m' ! a ! b = (if a = j \<and> b = i then v else m1 ! a ! b)"
    by auto
  have "\<forall>a<n. \<forall>b<n. m' ! a ! b
          = (if (a = i \<and> b = j) \<or> (a = j \<and> b = i) then v else m ! a ! b)"
  proof (intro allI impI)
    fix a b assume ab: "a < n" "b < n"
    have 1: "m' ! a ! b = (if a = j \<and> b = i then v else m1 ! a ! b)"
      using e2 ab by blast
    have 2: "m1 ! a ! b = (if a = i \<and> b = j then v else m ! a ! b)"
      using e1 ab by blast
    show "m' ! a ! b
          = (if (a = i \<and> b = j) \<or> (a = j \<and> b = i) then v else m ! a ! b)"
      by (rule if_merge [OF 1 2])
  qed
  with v d2 show ?thesis by blast
qed

lemma pair_body_total:
  assumes "Cij_num_win sd ws names w i j = Inr v" "dims n m" "i < n" "j < n"
  shows "\<exists>m'. pair_body sd ws names w i j m = Inr m' \<and> dims n m'"
proof -
  from setitem2_dims [OF assms(2,3,4), of v] obtain m1 where
    m1: "setitem2 m i j v = Inr m1" "dims n m1" by auto
  from setitem2_dims [OF m1(2) assms(4,3), of v] obtain m' where
    "setitem2 m1 j i v = Inr m'" "dims n m'" by auto
  then show ?thesis using assms(1) m1 by (auto simp: pair_body_def)
qed

lemma foldM_pairs_Inr:
  assumes "foldM (\<lambda>(i, j). pair_body sd ws names w i j) ps m0 = Inr m"
    and "dims n m0" and "\<forall>(i, j)\<in>set ps. i \<le> j \<and> j < n"
  shows "dims n m
       \<and> (\<forall>(i, j)\<in>set ps. \<exists>v. Cij_num_win sd ws names w i j = Inr v)
       \<and> (\<forall>a<n. \<forall>b<n. m ! a ! b =
            (if (min a b, max a b) \<in> set ps
             then projr (Cij_num_win sd ws names w (min a b) (max a b))
             else m0 ! a ! b))"
  using assms
proof (induction ps arbitrary: m0)
  case Nil
  then show ?case by simp
next
  case (Cons p ps)
  obtain i j where p: "p = (i, j)" by (cases p)
  from Cons.prems(1) p obtain m1 where
    m1: "pair_body sd ws names w i j m0 = Inr m1" and
    rest: "foldM (\<lambda>(i, j). pair_body sd ws names w i j) ps m1 = Inr m"
    by (auto split: sum.splits)
  have ij: "i \<le> j" "j < n" "i < n" using Cons.prems(3) p by auto
  from pair_body_Inr [OF m1 Cons.prems(2) ij(3,2)] obtain v where
    v: "Cij_num_win sd ws names w i j = Inr v" and d1: "dims n m1" and
    e1: "\<forall>a<n. \<forall>b<n. m1 ! a ! b
           = (if (a = i \<and> b = j) \<or> (a = j \<and> b = i) then v else m0 ! a ! b)"
    by auto
  have ps: "\<forall>(i, j)\<in>set ps. i \<le> j \<and> j < n" using Cons.prems(3) by auto
  note IH = Cons.IH [OF rest d1 ps]
  have key: "(a = i \<and> b = j) \<or> (a = j \<and> b = i) \<longleftrightarrow> (min a b, max a b) = (i, j)" for a b
    using ij(1) by (auto simp: min_def max_def)
  have "\<forall>a<n. \<forall>b<n. m ! a ! b =
            (if (min a b, max a b) \<in> set (p # ps)
             then projr (Cij_num_win sd ws names w (min a b) (max a b))
             else m0 ! a ! b)"
  proof (intro allI impI)
    fix a b assume ab: "a < n" "b < n"
    show "m ! a ! b =
            (if (min a b, max a b) \<in> set (p # ps)
             then projr (Cij_num_win sd ws names w (min a b) (max a b))
             else m0 ! a ! b)"
    proof (cases "(min a b, max a b) \<in> set ps")
      case True
      then show ?thesis using IH ab by simp
    next
      case False
      then have "m ! a ! b = m1 ! a ! b" using IH ab by simp
      also have "\<dots> = (if (min a b, max a b) = (i, j) then v else m0 ! a ! b)"
        using e1 ab key [of a b] by simp
      finally show ?thesis using False v p by auto
    qed
  qed
  then show ?case using IH v p by auto
qed

lemma foldM_total:
  assumes "P s" and "\<And>x s. x \<in> set xs \<Longrightarrow> P s \<Longrightarrow> \<exists>s'. f x s = Inr s' \<and> P s'"
  shows "\<exists>s'. foldM f xs s = Inr s' \<and> P s'"
  using assms
proof (induction xs arbitrary: s)
  case Nil
  then show ?case by simp
next
  case (Cons x xs)
  from Cons.prems(2) [of x s] Cons.prems(1) obtain s1 where s1: "f x s = Inr s1" "P s1" by auto
  from Cons.IH [OF s1(2)] Cons.prems(2) obtain s' where "foldM f xs s1 = Inr s'" "P s'"
    by auto
  then show ?case using s1 by simp
qed

lemma window_matrix_Inr:
  assumes "window_matrix sd ws names w = Inr m" and n: "n = length names"
  shows "dims n m
       \<and> (\<forall>i j. i \<le> j \<and> j < n \<longrightarrow>
             Cij_num_win sd ws names w i j = Inr (m ! i ! j) \<and> m ! j ! i = m ! i ! j)"
proof -
  from assms have f: "foldM (\<lambda>(i, j). pair_body sd ws names w i j) (pairs n) (zeros n n) = Inr m"
    by (simp add: window_matrix_def Let_def foldM_nested pairs_def)
  have "\<forall>(i, j)\<in>set (pairs n). i \<le> j \<and> j < n" by (simp add: set_pairs)
  note r = foldM_pairs_Inr [OF f dims_zeros this]
  show ?thesis
  proof (intro conjI allI impI)
    show "dims n m" using r by simp
  next
    fix i j assume ij: "i \<le> j \<and> j < n"
    then have mem: "(i, j) \<in> set (pairs n)" by (simp add: set_pairs)
    with r obtain v where v: "Cij_num_win sd ws names w i j = Inr v" by blast
    have mm: "min i j = i" "max i j = j" "min j i = i" "max j i = j" using ij by auto
    from r ij mem have "m ! i ! j = projr (Cij_num_win sd ws names w (min i j) (max i j))"
      by auto
    then have a: "m ! i ! j = v" using v mm by simp
    from r ij mem mm have "m ! j ! i = projr (Cij_num_win sd ws names w i j)"
      by (metis (no_types, lifting) le_less_trans)
    then have b: "m ! j ! i = v" using v by simp
    show "Cij_num_win sd ws names w i j = Inr (m ! i ! j)" using a v by simp
    show "m ! j ! i = m ! i ! j" using a b by simp
  qed
qed

lemma window_matrix_total:
  assumes "\<And>i j. i \<le> j \<Longrightarrow> j < length names \<Longrightarrow> \<exists>v. Cij_num_win sd ws names w i j = Inr v"
  shows "\<exists>m. window_matrix sd ws names w = Inr m"
proof -
  let ?n = "length names"
  have "\<exists>m. foldM (\<lambda>(i, j). pair_body sd ws names w i j) (pairs ?n) (zeros ?n ?n) = Inr m
          \<and> dims ?n m"
  proof (rule foldM_total [where P = "dims ?n"])
    show "dims ?n (zeros ?n ?n)" by (rule dims_zeros)
  next
    fix x s assume x: "x \<in> set (pairs ?n)" and s: "dims ?n s"
    obtain i j where p: "x = (i, j)" by (cases x)
    with x have ij: "i \<le> j" "j < ?n" by (auto simp: set_pairs)
    from assms [OF ij] obtain v where "Cij_num_win sd ws names w i j = Inr v" ..
    from pair_body_total [OF this s _ ij(2)] ij p
    show "\<exists>s'. (case x of (i, j) \<Rightarrow> pair_body sd ws names w i j) s = Inr s' \<and> dims ?n s'"
      by auto
  qed
  then show ?thesis by (auto simp: window_matrix_def Let_def foldM_nested pairs_def)
qed

subsection \<open>The engine's loops\<close>

lemma foldM_collect_Inr:
  assumes "foldM (\<lambda>w acc. ebind (g w) (\<lambda>m. Inr (acc @ [h m]))) ws acc0 = Inr ms"
  shows "ms = acc0 @ map (\<lambda>w. h (projr (g w))) ws \<and> (\<forall>w\<in>set ws. \<exists>m. g w = Inr m)"
  using assms
proof (induction ws arbitrary: acc0)
  case Nil
  then show ?case by simp
next
  case (Cons w ws)
  from Cons.prems obtain m where m: "g w = Inr m"
    and rest: "foldM (\<lambda>w acc. ebind (g w) (\<lambda>m. Inr (acc @ [h m]))) ws (acc0 @ [h m]) = Inr ms"
    by (cases "g w") (auto split: sum.splits)
  from Cons.IH [OF rest] m show ?case by simp
qed

lemma foldM_collect_total:
  assumes "\<forall>w\<in>set ws. \<exists>m. g w = Inr m"
  shows "foldM (\<lambda>w acc. ebind (g w) (\<lambda>m. Inr (acc @ [h m]))) ws acc0
           = Inr (acc0 @ map (\<lambda>w. h (projr (g w))) ws)"
  using assms
proof (induction ws arbitrary: acc0)
  case Nil
  then show ?case by simp
next
  case (Cons w ws)
  then obtain m where m: "g w = Inr m" by auto
  from Cons.IH [of "acc0 @ [h m]"] Cons.prems m show ?case by simp
qed

lemma getitem_nth:
  assumes "i < length sd"
  shows "getitem sd (map fst sd ! i) = Inr (instrument sd i)
       \<and> (map fst sd ! i, instrument sd i) \<in> set sd"
proof -
  have "map fst sd ! i \<in> fst ` set sd" using assms by (metis length_map nth_mem set_map)
  then obtain v where v: "map_of sd (map fst sd ! i) = Some v"
    by (metis domD dom_map_of_conv_image_fst)
  then have "getitem sd (map fst sd ! i) = Inr v" by (simp add: getitem_def)
  then show ?thesis using v by (simp add: instrument_def map_of_SomeD)
qed

lemma getitem_first: "getitem ((k, v) # rest) k = Inr v"
  by (simp add: getitem_def)

lemma instrument_0: "instrument ((k, v) # rest) 0 = v"
  by (simp add: instrument_def getitem_def)

lemma engine_Inr:
  assumes "calculate_correlation_matrices_per_window sd ws = Inr ms"
  shows "sd \<noteq> [] \<and> ws \<noteq> 0
       \<and> ms = map (\<lambda>w. \<lparr>index = map fst sd, columns = map fst sd,
                          matrix = projr (window_matrix sd ws (map fst sd) w)\<rparr>)
                 [0..<nat (int (length (instrument sd 0)) div ws)]
       \<and> (\<forall>w<nat (int (length (instrument sd 0)) div ws).
             \<exists>m. window_matrix sd ws (map fst sd) w = Inr m)"
proof (cases sd)
  case Nil
  with assms show ?thesis
    by (simp add: calculate_correlation_matrices_per_window_def list_index_def)
next
  case (Cons p rest)
  obtain k v where p: "p = (k, v)" by (cases p)
  have ws: "ws \<noteq> 0"
    using assms Cons p
    by (auto simp: calculate_correlation_matrices_per_window_def list_index_def
        getitem_first floordiv_def)
  from assms Cons p ws
  have "foldM (\<lambda>win_num correlation_matrices.
               ebind (window_matrix sd ws (map fst sd) win_num) (\<lambda>m.
                 Inr (correlation_matrices @
                      [\<lparr>index = map fst sd, columns = map fst sd, matrix = m\<rparr>])))
        [0..<nat (int (length v) div ws)] [] = Inr ms"
    by (simp add: calculate_correlation_matrices_per_window_def Let_def list_index_def
        getitem_first floordiv_def)
  from foldM_collect_Inr [OF this] Cons p ws show ?thesis
    by (simp add: instrument_0)
qed

lemma engine_total:
  assumes "sd \<noteq> []" "ws \<noteq> 0"
    and "\<forall>w<nat (int (length (instrument sd 0)) div ws).
             \<exists>m. window_matrix sd ws (map fst sd) w = Inr m"
  shows "calculate_correlation_matrices_per_window sd ws
       = Inr (map (\<lambda>w. \<lparr>index = map fst sd, columns = map fst sd,
                          matrix = projr (window_matrix sd ws (map fst sd) w)\<rparr>)
                 [0..<nat (int (length (instrument sd 0)) div ws)])"
proof -
  from assms(1) obtain k v rest where sd: "sd = (k, v) # rest"
    by (cases sd) auto
  have "\<forall>w\<in>set [0..<nat (int (length v) div ws)].
          \<exists>m. window_matrix sd ws (map fst sd) w = Inr m"
    using assms(3) sd by (simp add: instrument_0)
  from foldM_collect_total [OF this, of "\<lambda>m. \<lparr>index = map fst sd, columns = map fst sd, matrix = m\<rparr>" "[]"]
  show ?thesis using sd assms(2)
    by (simp add: calculate_correlation_matrices_per_window_def Let_def list_index_def
        getitem_first floordiv_def instrument_0)
qed

lemma Cij_eq:
  assumes "i < length sd" "j < length sd" "ws \<noteq> 0"
  shows "Cij_num_win sd ws (map fst sd) w i j =
     ebind (windows_of sd ws i) (\<lambda>window_i.
     ebind (windows_of sd ws j) (\<lambda>window_j.
     ebind (list_index window_i w) (\<lambda>wi.
       if 1 < length wi then
         ebind (list_index window_j w) (\<lambda>wj.
           if 1 < length wj then
             ebind (corrcoef wi wj) (\<lambda>c. Inr (c ! 0 ! 1))
           else Inr NaN)
       else Inr NaN)))"
  using assms getitem_nth [OF assms(1)] getitem_nth [OF assms(2)]
  by (simp add: Cij_num_win_def list_index_def floordiv_def windows_of_def)

subsection \<open>What the engine returns\<close>

lemma engine_length:
  assumes "calculate_correlation_matrices_per_window sd ws = Inr ms"
  shows "length ms = nat (int (length (instrument sd 0)) div ws)"
proof -
  let ?f = "\<lambda>w. \<lparr>index = map fst sd, columns = map fst sd,
                  matrix = projr (window_matrix sd ws (map fst sd) w)\<rparr>"
  have "ms = map ?f [0..<nat (int (length (instrument sd 0)) div ws)]"
    using engine_Inr [OF assms] by blast
  then have "length ms = length (map ?f [0..<nat (int (length (instrument sd 0)) div ws)])"
    by (rule arg_cong)
  then show ?thesis by simp
qed

lemma engine_entry:
  assumes "calculate_correlation_matrices_per_window sd ws = Inr ms"
    and "w < length ms" and "i \<le> j" and "j < length sd"
  shows "Cij_num_win sd ws (map fst sd) w i j = Inr (matrix (ms ! w) ! i ! j)
       \<and> matrix (ms ! w) ! j ! i = matrix (ms ! w) ! i ! j
       \<and> dims (length sd) (matrix (ms ! w))
       \<and> index (ms ! w) = map fst sd \<and> columns (ms ! w) = map fst sd"
proof -
  let ?K = "nat (int (length (instrument sd 0)) div ws)"
  note e = engine_Inr [OF assms(1)]
  have w: "w < ?K" using assms(2) engine_length [OF assms(1)] by simp
  with e obtain m where m: "window_matrix sd ws (map fst sd) w = Inr m" by blast
  have "ms ! w = \<lparr>index = map fst sd, columns = map fst sd,
                  matrix = projr (window_matrix sd ws (map fst sd) w)\<rparr>"
    using e w by simp
  then have mw: "matrix (ms ! w) = m" "index (ms ! w) = map fst sd"
    "columns (ms ! w) = map fst sd"
    using m by simp_all
  from window_matrix_Inr [OF m, of "length sd"] assms(3,4) mw show ?thesis by simp
qed

lemma np_cov_Inr:
  "length x = length y \<Longrightarrow> \<exists>c. np_cov x y = Inr c"
  by (simp add: np_cov_def Let_def)

lemma corrcoef_Inr:
  "length x = length y \<Longrightarrow> \<exists>c. corrcoef x y = Inr c"
  by (simp add: corrcoef_def np_cov_def Let_def)

lemma corrcoef_Inl:
  "length x \<noteq> length y \<Longrightarrow> corrcoef x y = Inl ValueError"
  by (simp add: corrcoef_def np_cov_def)

lemma windows_of_equal_length:
  assumes "\<forall>(k, df)\<in>set sd. length df = L" and "i < length sd"
    and "w < nat (int L div ws)"
  shows "\<exists>chunks. windows_of sd ws i = Inr chunks \<and> w < length chunks
           \<and> length (chunks ! w) = L div nat (int L div ws)
                 + (if w < L mod nat (int L div ws) then 1 else 0)"
proof -
  have len: "length (instrument sd i) = L"
    using getitem_nth [OF assms(2)] assms(1) by auto
  have K: "0 < int L div ws" using assms(3) by simp
  obtain chunks where c: "array_split (map Normalized_Return (instrument sd i)) (int L div ws)
                            = Inr chunks"
    using K by (simp add: array_split_eq)
  from length_array_split [OF K c] length_nth_array_split [OF K c assms(3)] c len
  show ?thesis using assms(3) by (simp add: windows_of_def)
qed

lemma Cij_equal_lengths:
  assumes "\<forall>(k, df)\<in>set sd. length df = L" and "i < length sd" and "j < length sd"
    and "ws \<noteq> 0" and "w < nat (int L div ws)"
  shows "\<exists>v. Cij_num_win sd ws (map fst sd) w i j = Inr v"
proof -
  from windows_of_equal_length [OF assms(1,2,5)] obtain ci where
    ci: "windows_of sd ws i = Inr ci" "w < length ci"
    "length (ci ! w) = L div nat (int L div ws) + (if w < L mod nat (int L div ws) then 1 else 0)"
    by blast
  from windows_of_equal_length [OF assms(1,3,5)] obtain cj where
    cj: "windows_of sd ws j = Inr cj" "w < length cj"
    "length (cj ! w) = L div nat (int L div ws) + (if w < L mod nat (int L div ws) then 1 else 0)"
    by blast
  have "length (ci ! w) = length (cj ! w)" using ci(3) cj(3) by simp
  from corrcoef_Inr [OF this] obtain c where "corrcoef (ci ! w) (cj ! w) = Inr c" ..
  then show ?thesis
    using ci(1,2) cj(1,2) by (simp add: Cij_eq [OF assms(2,3,4)] list_index_def)
qed

lemma engine_equal_lengths:
  assumes "sd \<noteq> []" and "ws \<noteq> 0" and "\<forall>(k, df)\<in>set sd. length df = L"
  shows "\<exists>ms. calculate_correlation_matrices_per_window sd ws = Inr ms
            \<and> length ms = nat (int L div ws)"
proof -
  have L: "length (instrument sd 0) = L"
    using getitem_nth [of 0 sd] assms(1,3) by auto
  have "\<exists>m. window_matrix sd ws (map fst sd) w = Inr m" if "w < nat (int L div ws)" for w
    by (rule window_matrix_total) (use Cij_equal_lengths [OF assms(3) _ _ assms(2) that] in auto)
  then have "\<forall>w<nat (int (length (instrument sd 0)) div ws).
               \<exists>m. window_matrix sd ws (map fst sd) w = Inr m"
    using L by simp
  from engine_total [OF assms(1,2) this] L show ?thesis by simp
qed

lemma length_sample_frame: "length (sample_frame vs) = length vs"
  by (simp add: sample_frame_def)

lemma Cij_Inr_cases:
  assumes "Cij_num_win sd ws (map fst sd) w i j = Inr v"
    and "i < length sd" and "j < length sd" and "ws \<noteq> 0"
  shows "\<exists>window_i window_j.
           windows_of sd ws i = Inr window_i \<and> windows_of sd ws j = Inr window_j
         \<and> w < length window_i
         \<and> (if 1 < length (window_i ! w)
            then w < length window_j
               \<and> (if 1 < length (window_j ! w)
                  then \<exists>c. corrcoef (window_i ! w) (window_j ! w) = Inr c \<and> v = c ! 0 ! 1
                  else v = NaN)
            else v = NaN)"
proof -
  from assms(1) obtain window_i window_j wi where
    wi: "windows_of sd ws i = Inr window_i" and wj: "windows_of sd ws j = Inr window_j"
    and li: "list_index window_i w = Inr wi"
    and rest: "(if 1 < length wi then
         ebind (list_index window_j w) (\<lambda>wj.
           if 1 < length wj then
             ebind (corrcoef wi wj) (\<lambda>c. Inr (c ! 0 ! 1))
           else Inr NaN)
       else Inr NaN) = Inr v"
    unfolding Cij_eq [OF assms(2,3,4)] ebind_Inr_iff by blast
  from li have w: "w < length window_i" and wi_eq: "wi = window_i ! w"
    by (auto simp: list_index_def split: if_splits)
  show ?thesis
  proof (cases "1 < length wi")
    case False
    with rest wi wj w wi_eq show ?thesis by auto
  next
    case True
    with rest obtain wj' where lj: "list_index window_j w = Inr wj'"
      and rest2: "(if 1 < length wj' then
             ebind (corrcoef wi wj') (\<lambda>c. Inr (c ! 0 ! 1))
           else Inr NaN) = Inr v"
      by (auto simp: ebind_Inr_iff)
    from lj have w2: "w < length window_j" and wj_eq: "wj' = window_j ! w"
      by (auto simp: list_index_def split: if_splits)
    show ?thesis
    proof (cases "1 < length wj'")
      case False
      with rest2 True wi wj w w2 wi_eq wj_eq show ?thesis by auto
    next
      case t2: True
      with rest2 obtain c where "corrcoef wi wj' = Inr c" "v = c ! 0 ! 1"
        by (auto simp: ebind_Inr_iff)
      with True t2 wi wj w w2 wi_eq wj_eq show ?thesis by auto
    qed
  qed
qed

lemma engine_ws_nonzero:
  "calculate_correlation_matrices_per_window sd ws = Inr ms \<Longrightarrow> ws \<noteq> 0"
  using engine_Inr by blast

text \<open>
  C1.  With a first instrument whose normalized series has length \<open>L\<close> and a window
  size \<open>W > 0\<close>, a run of the engine that returns gives exactly \<open>L div W\<close> matrices;
  it does return when all series have the length of the first; and for \<open>L = 440\<close>,
  \<open>W = 44\<close> (the default) the count is 10.
\<close>

theorem engine_windows_count:
  assumes "stock_data = (first_company, df_first) # rest" and "0 < window_size"
  shows "(\<forall>ms. calculate_correlation_matrices_per_window stock_data window_size = Inr ms
            \<longrightarrow> int (length ms) = int (length (map Normalized_Return df_first)) div window_size)
       \<and> ((\<forall>(name, df)\<in>set rest. length df = length df_first)
            \<longrightarrow> (\<exists>ms. calculate_correlation_matrices_per_window stock_data window_size = Inr ms
                   \<and> int (length ms)
                       = int (length (map Normalized_Return df_first)) div window_size))
       \<and> (length (map Normalized_Return df_first) = 440
            \<and> window_size = window_size_correlation
            \<longrightarrow> (\<forall>ms. calculate_correlation_matrices_per_window stock_data window_size = Inr ms
                   \<longrightarrow> length ms = 10))"
proof -
  have i0: "instrument stock_data 0 = df_first"
    using assms(1) by (simp add: instrument_0)
  have nn: "0 \<le> int (length df_first) div window_size"
    using assms(2) by (simp add: pos_imp_zdiv_nonneg_iff)
  have a: "int (length ms) = int (length (map Normalized_Return df_first)) div window_size"
    if "calculate_correlation_matrices_per_window stock_data window_size = Inr ms" for ms
    using engine_length [OF that] i0 nn by simp
  have b: "\<exists>ms. calculate_correlation_matrices_per_window stock_data window_size = Inr ms
                   \<and> int (length ms)
                       = int (length (map Normalized_Return df_first)) div window_size"
    if "\<forall>(name, df)\<in>set rest. length df = length df_first"
  proof -
    have "\<forall>(k, df)\<in>set stock_data. length df = length df_first"
      using that assms(1) by auto
    from engine_equal_lengths [OF _ _ this, of window_size] assms
    show ?thesis using nn by auto
  qed
  have c: "length ms = 10"
    if "length (map Normalized_Return df_first) = 440
          \<and> window_size = window_size_correlation"
      and "calculate_correlation_matrices_per_window stock_data window_size = Inr ms" for ms
    using a [OF that(2)] that(1) by (simp add: window_size_correlation_def)
  from a b c show ?thesis by blast
qed

theorem engine_windows_count_witness:
  "\<exists>ms. calculate_correlation_matrices_per_window
           [(''AAA'', sample_frame (replicate 440 (Fin 0))),
            (''BBB'', sample_frame (replicate 440 (Fin 1)))] window_size_correlation = Inr ms
      \<and> length ms = 10"
  using engine_windows_count [of _ "''AAA''" "sample_frame (replicate 440 (Fin 0))"
      "[(''BBB'', sample_frame (replicate 440 (Fin 1)))]" window_size_correlation, OF refl]
  by (auto simp: length_sample_frame window_size_correlation_def)



subsection \<open>The return series\<close>

lemma fdiv_zero_not_finite: "\<not> is_finite (fdiv x (Fin 0))"
  by (cases x) auto

text \<open>
  C8.  The \<open>Return\<close> column has one value per row, \<open>(close - open) / open\<close> at each
  position, and a non-finite value (no exception) where \<open>open\<close> is zero.
\<close>

theorem return_series_spec:
  "length (return_series df) = length df
   \<and> (\<forall>t<length df.
        return_series df ! t
          = fdiv (fsub (map Close df ! t) (map Open df ! t)) (map Open df ! t)
        \<and> (map Open df ! t = Fin 0 \<longrightarrow> \<not> is_finite (return_series df ! t)))"
proof -
  have len: "length (return_series df) = length df"
    by (simp add: return_series_def series_div_def series_sub_def)
  have nth: "return_series df ! t
          = fdiv (fsub (map Close df ! t) (map Open df ! t)) (map Open df ! t)"
    if "t < length df" for t
    using that by (simp add: return_series_def series_div_def series_sub_def)
  have "\<not> is_finite (return_series df ! t)"
    if "t < length df" "map Open df ! t = Fin 0" for t
    unfolding nth [OF that(1)] that(2) by (rule fdiv_zero_not_finite)
  with len nth show ?thesis by blast
qed

theorem return_series_spec_witness:
  "length (return_series
     [\<lparr>Date = ''2020-01-01'', Open = Fin 2, Close = Fin 3\<rparr>,
      \<lparr>Date = ''2020-01-02'', Open = Fin 0, Close = Fin 1\<rparr>]) = 2
   \<and> return_series
     [\<lparr>Date = ''2020-01-01'', Open = Fin 2, Close = Fin 3\<rparr>,
      \<lparr>Date = ''2020-01-02'', Open = Fin 0, Close = Fin 1\<rparr>] ! 0 = Fin (1 / 2)
   \<and> \<not> is_finite (return_series
     [\<lparr>Date = ''2020-01-01'', Open = Fin 2, Close = Fin 3\<rparr>,
      \<lparr>Date = ''2020-01-02'', Open = Fin 0, Close = Fin 1\<rparr>] ! 1)"
  using return_series_spec [of
     "[\<lparr>Date = ''2020-01-01'', Open = Fin 2, Close = Fin 3\<rparr>,
       \<lparr>Date = ''2020-01-02'', Open = Fin 0, Close = Fin 1\<rparr>]"]
  by (simp add: fsub_def)

subsection \<open>Exact floating-point arithmetic\<close>

lemma fsub_Fin [simp]: "fsub (Fin a) (Fin b) = Fin (a - b)"
  by (simp add: fsub_def)

lemma fdiv_NaN_right [simp]: "fdiv a NaN = NaN"
  by (cases a) auto

lemma fsub_NaN_right [simp]: "fsub a NaN = NaN"
  by (cases a) (auto simp: fsub_def)

lemma fsub_NaN_left [simp]: "fsub NaN a = NaN"
  by (simp add: fsub_def)

lemma fadd_NaN_right [simp]: "fadd a NaN = NaN"
  by (cases a) auto





subsection \<open>The two passes of the normalizer\<close>

lemma fold_append_map:
  "fold (\<lambda>x acc. acc @ [f x]) xs acc = acc @ map f xs"
  by (induction xs arbitrary: acc) auto

lemma window_loop_eq: "window_loop window acc = acc @ per_chunk_zscore window"
  by (simp add: window_loop_def per_chunk_zscore_def fold_append_map)

lemma fold_window_loop:
  "fold window_loop windows acc = acc @ concat (map per_chunk_zscore windows)"
  by (induction windows arbitrary: acc) (auto simp: window_loop_eq)

lemma zscore_eq_global: "zscore a = global_zscore a"
  by (simp add: zscore_def global_zscore_def Let_def)

lemma length_per_chunk_zscore [simp]: "length (per_chunk_zscore c) = length c"
  by (simp add: per_chunk_zscore_def)

lemma length_global_zscore [simp]: "length (global_zscore a) = length a"
  by (simp add: global_zscore_def)

lemma length_concat_per_chunk:
  "length (concat (map per_chunk_zscore chunks)) = length (concat chunks)"
  by (induction chunks) auto


lemma normalizer_eq:
  assumes "0 < W" and "array_split returns W = Inr chunks"
  shows "calculate_normalized_returns_zero_mean returns W
           = Inr (global_zscore (concat (map per_chunk_zscore chunks)))"
  using assms(2)
  by (simp add: calculate_normalized_returns_zero_mean_def fold_window_loop zscore_eq_global)







subsection \<open>Instruments of differing lengths\<close>

lemma windows_of_A:
  "windows_of [(''AAA'', sample_frame [Fin 0, Fin 0, Fin 0, Fin 0]),
               (''BBB'', sample_frame [Fin 0, Fin 0])] 2 0
     = Inr [[Fin 0, Fin 0], [Fin 0, Fin 0]]"
  by (simp add: windows_of_def instrument_0 sample_frame_def array_split_eq div_point_def
      slice_def upt_rec)

lemma instrument_1: "k \<noteq> k' \<Longrightarrow> instrument ((k, v) # (k', v') # rest) (Suc 0) = v'"
  by (simp add: instrument_def getitem_def)

lemma windows_of_B:
  "windows_of [(''AAA'', sample_frame [Fin 0, Fin 0, Fin 0, Fin 0]),
               (''BBB'', sample_frame [Fin 0, Fin 0])] 2 (Suc 0)
     = Inr [[Fin 0, Fin 0]]"
  by (simp add: windows_of_def instrument_1 sample_frame_def array_split_eq div_point_def
      slice_def upt_rec)

lemma corrcoef_zero: "corrcoef [Fin 0, Fin 0] [Fin 0, Fin 0] = Inr [[NaN, NaN], [NaN, NaN]]"
  by (simp add: corrcoef_def np_cov_def np_mean_def dot_def Let_def)

lemma engine_short_instrument:
  "calculate_correlation_matrices_per_window
     [(''AAA'', sample_frame [Fin 0, Fin 0, Fin 0, Fin 0]),
      (''BBB'', sample_frame [Fin 0, Fin 0])] 2 = Inl IndexError"
proof -
  let ?sd = "[(''AAA'', sample_frame [Fin 0, Fin 0, Fin 0, Fin 0]),
              (''BBB'', sample_frame [Fin 0, Fin 0])]"
  have l: "(0::nat) < length ?sd" "(1::nat) < length ?sd" by simp_all
  have ws: "(2::int) \<noteq> 0" by simp
  have c: "Cij_num_win ?sd 2 [''AAA'', ''BBB''] w i j =
            (if w = 0 then Inr NaN else if w = 1 \<and> i = 0 \<and> j = 0 then Inr NaN else Inl IndexError)"
    if "w < 2" "i < 2" "j < 2" "i \<le> j" for w i j
  proof -
    have ij: "i < length ?sd" "j < length ?sd" using that by simp_all
    have i: "i = 0 \<or> i = 1" and j: "j = 0 \<or> j = 1" and w: "w = 0 \<or> w = 1"
      using that by auto
    from Cij_eq [OF ij ws, of w] i j w that(4) show ?thesis
      by (auto simp: windows_of_A windows_of_B list_index_def corrcoef_zero)
  qed
  show ?thesis
    by (simp add: calculate_correlation_matrices_per_window_def Let_def list_index_def
        getitem_def floordiv_def length_sample_frame window_matrix_def upt_rec
        pair_body_def c zeros_def setitem2_def numeral_2_eq_2)
qed

lemma windows_of_long:
  "windows_of [(''AAA'', sample_frame [Fin 0, Fin 0, Fin 0, Fin 0]),
               (''BBB'', sample_frame [Fin 0, Fin 0, Fin 0, Fin 0, Fin 0])] 2 0
     = Inr [[Fin 0, Fin 0], [Fin 0, Fin 0]]
   \<and> windows_of [(''AAA'', sample_frame [Fin 0, Fin 0, Fin 0, Fin 0]),
               (''BBB'', sample_frame [Fin 0, Fin 0, Fin 0, Fin 0, Fin 0])] 2 (Suc 0)
     = Inr [[Fin 0, Fin 0, Fin 0], [Fin 0, Fin 0]]"
  by (simp add: windows_of_def instrument_0 instrument_1 sample_frame_def array_split_eq
      div_point_def slice_def upt_rec)

lemma engine_long_instrument:
  "calculate_correlation_matrices_per_window
     [(''AAA'', sample_frame [Fin 0, Fin 0, Fin 0, Fin 0]),
      (''BBB'', sample_frame [Fin 0, Fin 0, Fin 0, Fin 0, Fin 0])] 2 = Inl ValueError"
proof -
  let ?sd = "[(''AAA'', sample_frame [Fin 0, Fin 0, Fin 0, Fin 0]),
              (''BBB'', sample_frame [Fin 0, Fin 0, Fin 0, Fin 0, Fin 0])]"
  have ws: "(2::int) \<noteq> 0" by simp
  have c: "Cij_num_win ?sd 2 [''AAA'', ''BBB''] 0 0 j = (if j = 0 then Inr NaN else Inl ValueError)"
    if "j < 2" for j
  proof -
    have ij: "0 < length ?sd" "j < length ?sd" using that by simp_all
    have j: "j = 0 \<or> j = 1" using that by auto
    from Cij_eq [OF ij ws, of 0] j show ?thesis
      by (auto simp: windows_of_long list_index_def corrcoef_zero corrcoef_Inl)
  qed
  show ?thesis
    by (simp add: calculate_correlation_matrices_per_window_def Let_def list_index_def
        getitem_def floordiv_def length_sample_frame window_matrix_def upt_rec
        pair_body_def c zeros_def setitem2_def numeral_2_eq_2)
qed

lemma windows_of_Inr_D:
  assumes "windows_of sd ws i = Inr window_i"
  shows "0 < int (length (instrument sd i)) div ws
       \<and> length window_i = nat (int (length (instrument sd i)) div ws)"
proof -
  have pos: "0 < int (length (instrument sd i)) div ws"
    using assms by (auto simp: windows_of_def array_split_def split: if_splits)
  have a: "array_split (map Normalized_Return (instrument sd i))
             (int (length (instrument sd i)) div ws) = Inr window_i"
    using assms by (simp add: windows_of_def)
  from length_array_split [OF pos a] pos show ?thesis by simp
qed

lemma windows_of_nth:
  assumes "windows_of sd ws i = Inr window_i" and "u < length window_i"
  shows "window_i ! u =
           slice (map Normalized_Return (instrument sd i))
             (div_point (length (instrument sd i)) (length window_i) u)
             (div_point (length (instrument sd i)) (length window_i) (Suc u))
       \<and> length (window_i ! u) =
           length (instrument sd i) div length window_i
             + (if u < length (instrument sd i) mod length window_i then 1 else 0)"
proof -
  note d = windows_of_Inr_D [OF assms(1)]
  have a: "array_split (map Normalized_Return (instrument sd i))
             (int (length (instrument sd i)) div ws) = Inr window_i"
    using assms(1) by (simp add: windows_of_def)
  have u: "u < nat (int (length (instrument sd i)) div ws)" using assms(2) d by simp
  from nth_array_split [OF _ a u] length_nth_array_split [OF _ a u] d show ?thesis
    by simp
qed

lemma chunk_size_cases:
  assumes "0 < int L div ws" and "k = nat (int L div ws)"
  shows "(ws = 1 \<and> L div k + (if u < L mod k then 1 else 0) = 1)
       \<or> (2 \<le> ws \<and> 2 \<le> L div k + (if u < L mod k then 1 else 0))"
proof -
  have wpos: "0 < ws"
  proof (rule ccontr)
    assume "\<not> 0 < ws"
    then have "ws \<le> 0" by simp
    then have "int L div ws \<le> 0"
      by (cases "ws = 0") (simp_all add: div_nonneg_neg_le0)
    with assms(1) show False by simp
  qed
  have kk: "k = L div nat ws"
    using assms(2) wpos by (simp add: nat_div_distrib)
  have kpos: "0 < k" using assms by simp
  show ?thesis
  proof (cases "ws = 1")
    case True
    then have "k = L" using kk by simp
    with kpos True show ?thesis by simp
  next
    case False
    with wpos have w2: "2 \<le> ws" by simp
    then have "2 \<le> nat ws" by simp
    then have "2 * k \<le> nat ws * k" by simp
    also have "\<dots> \<le> L" unfolding kk by (simp add: mult.commute)
    finally have "2 * k \<le> L" .
    then have "2 \<le> L div k" using kpos by (simp add: less_eq_div_iff_mult_less_eq mult.commute)
    with w2 show ?thesis by simp
  qed
qed

lemma div_point_cong:
  assumes "\<forall>u<w. (if u < n mod k then n div k + 1 else n div k)
                 = (if u < n' mod k' then n' div k' + 1 else n' div k')"
  shows "div_point n k w = div_point n' k' w"
  using assms
proof (induction w)
  case 0
  show ?case by (simp add: div_point_0)
next
  case (Suc w)
  then have "div_point n k w = div_point n' k' w" by simp
  moreover from Suc.prems
  have "(if w < n mod k then n div k + 1 else n div k)
          = (if w < n' mod k' then n' div k' + 1 else n' div k')"
    by simp
  ultimately show ?case by (simp only: div_point_Suc)
qed

lemma engine_in_range:
  assumes "calculate_correlation_matrices_per_window sd ws = Inr ms"
    and "u < length ms" and "i < length sd"
  shows "\<exists>window_i. windows_of sd ws i = Inr window_i \<and> u < length window_i"
proof -
  have ws: "ws \<noteq> 0" by (rule engine_ws_nonzero [OF assms(1)])
  from engine_entry [OF assms(1,2) le_refl assms(3)]
  have "Cij_num_win sd ws (map fst sd) u i i = Inr (matrix (ms ! u) ! i ! i)" by simp
  from Cij_Inr_cases [OF this assms(3,3) ws] show ?thesis by blast
qed

lemma pair_chunk_lengths:
  assumes "Cij_num_win sd ws (map fst sd) u i j = Inr v"
    and "i < length sd" and "j < length sd" and "ws \<noteq> 0"
    and "windows_of sd ws i = Inr window_i" and "windows_of sd ws j = Inr window_j"
    and "u < length window_i" and "u < length window_j"
  shows "length (window_i ! u) = length (window_j ! u)"
proof -
  note di = windows_of_Inr_D [OF assms(5)] and dj = windows_of_Inr_D [OF assms(6)]
  note ni = windows_of_nth [OF assms(5,7), THEN conjunct2]
    and nj = windows_of_nth [OF assms(6,8), THEN conjunct2]
  from chunk_size_cases [of "length (instrument sd i)" ws "length window_i" u] di ni
  have ci: "(ws = 1 \<and> length (window_i ! u) = 1) \<or> (2 \<le> ws \<and> 2 \<le> length (window_i ! u))"
    by simp
  from chunk_size_cases [of "length (instrument sd j)" ws "length window_j" u] dj nj
  have cj: "(ws = 1 \<and> length (window_j ! u) = 1) \<or> (2 \<le> ws \<and> 2 \<le> length (window_j ! u))"
    by simp
  show ?thesis
  proof (cases "ws = 1")
    case True
    with ci cj show ?thesis by simp
  next
    case False
    with ci cj have big: "1 < length (window_i ! u)" "1 < length (window_j ! u)" by auto
    from Cij_Inr_cases [OF assms(1,2,3,4)] assms(5,6) big
    obtain c where "corrcoef (window_i ! u) (window_j ! u) = Inr c" by auto
    then show ?thesis using corrcoef_Inl [of "window_i ! u" "window_j ! u"] by auto
  qed
qed

lemma engine_chunk_lengths:
  assumes "calculate_correlation_matrices_per_window sd ws = Inr ms"
    and "u < length ms" and "i < length sd" and "j < length sd"
    and "windows_of sd ws i = Inr window_i" and "windows_of sd ws j = Inr window_j"
  shows "u < length window_i \<and> u < length window_j
       \<and> length (window_i ! u) = length (window_j ! u)"
proof -
  have ws: "ws \<noteq> 0" by (rule engine_ws_nonzero [OF assms(1)])
  from engine_in_range [OF assms(1,2,3)] assms(5) have ui: "u < length window_i" by auto
  from engine_in_range [OF assms(1,2,4)] assms(6) have uj: "u < length window_j" by auto
  have "length (window_i ! u) = length (window_j ! u)"
  proof (cases "i \<le> j")
    case True
    from engine_entry [OF assms(1,2) True assms(4)]
    have "Cij_num_win sd ws (map fst sd) u i j = Inr (matrix (ms ! u) ! i ! j)" by simp
    from pair_chunk_lengths [OF this assms(3,4) ws assms(5,6) ui uj] show ?thesis .
  next
    case False
    then have ji: "j \<le> i" by simp
    from engine_entry [OF assms(1,2) ji assms(3)]
    have "Cij_num_win sd ws (map fst sd) u j i = Inr (matrix (ms ! u) ! j ! i)" by simp
    from pair_chunk_lengths [OF this assms(4,3) ws assms(6,5) uj ui] show ?thesis by simp
  qed
  with ui uj show ?thesis by simp
qed

lemma engine_aligned:
  assumes "calculate_correlation_matrices_per_window sd ws = Inr ms"
    and "w < length ms" and "i < length sd" and "j < length sd"
  shows "\<exists>window_i window_j st en.
           windows_of sd ws i = Inr window_i \<and> windows_of sd ws j = Inr window_j
         \<and> w < length window_i \<and> w < length window_j
         \<and> window_i ! w = slice (map Normalized_Return (instrument sd i)) st en
         \<and> window_j ! w = slice (map Normalized_Return (instrument sd j)) st en
         \<and> length (window_i ! w) = en - st \<and> length (window_j ! w) = en - st"
proof -
  from engine_in_range [OF assms(1,2,3)] obtain window_i where
    wi: "windows_of sd ws i = Inr window_i" by blast
  from engine_in_range [OF assms(1,2,4)] obtain window_j where
    wj: "windows_of sd ws j = Inr window_j" by blast
  let ?Li = "length (instrument sd i)" and ?Lj = "length (instrument sd j)"
  let ?ki = "length window_i" and ?kj = "length window_j"
  have all: "u < ?ki \<and> u < ?kj \<and> length (window_i ! u) = length (window_j ! u)"
    if "u \<le> w" for u
    using engine_chunk_lengths [OF assms(1) _ assms(3,4) wi wj, of u] that assms(2) by simp
  have sizes: "(if u < ?Li mod ?ki then ?Li div ?ki + 1 else ?Li div ?ki)
             = (if u < ?Lj mod ?kj then ?Lj div ?kj + 1 else ?Lj div ?kj)"
    if "u \<le> w" for u
  proof -
    from all [OF that] have u: "u < ?ki" "u < ?kj"
      and l: "length (window_i ! u) = length (window_j ! u)" by simp_all
    from windows_of_nth [OF wi u(1), THEN conjunct2]
      windows_of_nth [OF wj u(2), THEN conjunct2] l show ?thesis
      by (simp split: if_splits)
  qed
  have st: "div_point ?Li ?ki w = div_point ?Lj ?kj w"
    by (rule div_point_cong) (use sizes in auto)
  have en: "div_point ?Li ?ki (Suc w) = div_point ?Lj ?kj (Suc w)"
    by (rule div_point_cong) (use sizes in \<open>auto simp: less_Suc_eq_le\<close>)
  from all [of w] have w: "w < ?ki" "w < ?kj" by simp_all
  note ni = windows_of_nth [OF wi w(1)] and nj = windows_of_nth [OF wj w(2)]
  have leni: "length (window_i ! w) = div_point ?Li ?ki (Suc w) - div_point ?Li ?ki w"
    using ni [THEN conjunct2] by (simp add: div_point_Suc)
  have lenj: "length (window_j ! w) = div_point ?Li ?ki (Suc w) - div_point ?Li ?ki w"
    using all [of w] leni by simp
  have si: "window_i ! w = slice (map Normalized_Return (instrument sd i))
              (div_point ?Li ?ki w) (div_point ?Li ?ki (Suc w))"
    using ni by (rule conjunct1)
  have sj: "window_j ! w = slice (map Normalized_Return (instrument sd j))
              (div_point ?Li ?ki w) (div_point ?Li ?ki (Suc w))"
    using nj [THEN conjunct1] unfolding st en .
  from wi wj w si sj leni lenj show ?thesis by blast
qed

lemma windows_of_longer:
  "windows_of [(''AAA'', sample_frame [Fin 0, Fin 0, Fin 0, Fin 0]),
               (''BBB'', sample_frame [Fin 0, Fin 0, Fin 0, Fin 0, Fin 0, Fin 0])] 2 0
     = Inr [[Fin 0, Fin 0], [Fin 0, Fin 0]]
   \<and> windows_of [(''AAA'', sample_frame [Fin 0, Fin 0, Fin 0, Fin 0]),
               (''BBB'', sample_frame [Fin 0, Fin 0, Fin 0, Fin 0, Fin 0, Fin 0])] 2 (Suc 0)
     = Inr [[Fin 0, Fin 0], [Fin 0, Fin 0], [Fin 0, Fin 0]]"
  by (simp add: windows_of_def instrument_0 instrument_1 sample_frame_def array_split_eq
      div_point_def slice_def upt_rec)

lemma engine_longer_instrument:
  "calculate_correlation_matrices_per_window
     [(''AAA'', sample_frame [Fin 0, Fin 0, Fin 0, Fin 0]),
      (''BBB'', sample_frame [Fin 0, Fin 0, Fin 0, Fin 0, Fin 0, Fin 0])] 2
   = Inr [\<lparr>index = [''AAA'', ''BBB''], columns = [''AAA'', ''BBB''],
            matrix = [[NaN, NaN], [NaN, NaN]]\<rparr>,
          \<lparr>index = [''AAA'', ''BBB''], columns = [''AAA'', ''BBB''],
            matrix = [[NaN, NaN], [NaN, NaN]]\<rparr>]"
proof -
  let ?sd = "[(''AAA'', sample_frame [Fin 0, Fin 0, Fin 0, Fin 0]),
              (''BBB'', sample_frame [Fin 0, Fin 0, Fin 0, Fin 0, Fin 0, Fin 0])]"
  have ws: "(2::int) \<noteq> 0" by simp
  have c: "Cij_num_win ?sd 2 [''AAA'', ''BBB''] w i j = Inr NaN"
    if "w < 2" "i < 2" "j < 2" for w i j
  proof -
    have ij: "i < length ?sd" "j < length ?sd" using that by simp_all
    have i: "i = 0 \<or> i = 1" and j: "j = 0 \<or> j = 1" and w: "w = 0 \<or> w = 1"
      using that by auto
    from Cij_eq [OF ij ws, of w] i j w show ?thesis
      by (auto simp: windows_of_longer list_index_def corrcoef_zero)
  qed
  show ?thesis
    by (simp add: calculate_correlation_matrices_per_window_def Let_def list_index_def
        getitem_def floordiv_def length_sample_frame window_matrix_def upt_rec
        pair_body_def c zeros_def setitem2_def numeral_2_eq_2)
qed

text \<open>
  C9 as stated fails: with a shorter second instrument, so that window 1 is outside its
  chunk list, the engine raises \<open>IndexError\<close>; with a longer one whose first chunk has
  three elements against two, \<open>np.corrcoef\<close> raises \<open>ValueError\<close>.  Neither read is
  silent.
\<close>

theorem silent_misread_counterexample:
  "calculate_correlation_matrices_per_window
     [(''AAA'', sample_frame [Fin 0, Fin 0, Fin 0, Fin 0]),
      (''BBB'', sample_frame [Fin 0, Fin 0])] 2 = Inl IndexError
   \<and> calculate_correlation_matrices_per_window
     [(''AAA'', sample_frame [Fin 0, Fin 0, Fin 0, Fin 0]),
      (''BBB'', sample_frame [Fin 0, Fin 0, Fin 0, Fin 0, Fin 0])] 2 = Inl ValueError"
  by (simp add: engine_short_instrument engine_long_instrument)

text \<open>
  C9, amended.  The engine splits the series of each instrument by that instrument's own
  length, into \<open>len(df) // window_size\<close> chunks (\<open>windows_of\<close>), and takes chunk \<open>w\<close>.
  Whenever it returns its matrices, then for every window \<open>w\<close> and all instruments
  \<open>i\<close>, \<open>j\<close> both chunk lists contain chunk \<open>w\<close>, and the two chunks are the same
  index range \<open>[st, en)\<close> of their series, of full length \<open>en - st\<close>: no read is out of
  range or misaligned.  Series of differing lengths either lead to such a run or to an
  exception; there are inputs of differing lengths that raise \<open>IndexError\<close>, and others
  that raise \<open>ValueError\<close>.
\<close>

theorem differing_lengths_raise_or_align:
  assumes "calculate_correlation_matrices_per_window stock_data window_size = Inr ms"
    and "w < length ms" and "i < length stock_data" and "j < length stock_data"
  shows "(\<exists>window_i window_j st en.
            windows_of stock_data window_size i = Inr window_i
          \<and> windows_of stock_data window_size j = Inr window_j
          \<and> w < length window_i \<and> w < length window_j
          \<and> window_i ! w = slice (map Normalized_Return (instrument stock_data i)) st en
          \<and> window_j ! w = slice (map Normalized_Return (instrument stock_data j)) st en
          \<and> length (window_i ! w) = en - st \<and> length (window_j ! w) = en - st)
       \<and> (\<exists>sd ws. length (instrument sd 0) \<noteq> length (instrument sd 1)
             \<and> calculate_correlation_matrices_per_window sd ws = Inl IndexError)
       \<and> (\<exists>sd ws. length (instrument sd 0) \<noteq> length (instrument sd 1)
             \<and> calculate_correlation_matrices_per_window sd ws = Inl ValueError)"
proof -
  let ?short = "[(''AAA'', sample_frame [Fin 0, Fin 0, Fin 0, Fin 0]),
                 (''BBB'', sample_frame [Fin 0, Fin 0])]"
  let ?long = "[(''AAA'', sample_frame [Fin 0, Fin 0, Fin 0, Fin 0]),
                (''BBB'', sample_frame [Fin 0, Fin 0, Fin 0, Fin 0, Fin 0])]"
  have "length (instrument ?short 0) \<noteq> length (instrument ?short 1)"
    by (simp add: instrument_0 instrument_1 length_sample_frame)
  with engine_short_instrument
  have a: "\<exists>sd ws. length (instrument sd 0) \<noteq> length (instrument sd 1)
             \<and> calculate_correlation_matrices_per_window sd ws = Inl IndexError"
    by blast
  have "length (instrument ?long 0) \<noteq> length (instrument ?long 1)"
    by (simp add: instrument_0 instrument_1 length_sample_frame)
  with engine_long_instrument
  have b: "\<exists>sd ws. length (instrument sd 0) \<noteq> length (instrument sd 1)
             \<and> calculate_correlation_matrices_per_window sd ws = Inl ValueError"
    by blast
  from engine_aligned [OF assms] a b show ?thesis by blast
qed

theorem differing_lengths_raise_or_align_witness:
  "\<exists>ms window_i window_j st en.
      calculate_correlation_matrices_per_window
        [(''AAA'', sample_frame [Fin 0, Fin 0, Fin 0, Fin 0]),
         (''BBB'', sample_frame [Fin 0, Fin 0, Fin 0, Fin 0, Fin 0, Fin 0])] 2 = Inr ms
    \<and> length ms = 2
    \<and> windows_of
        [(''AAA'', sample_frame [Fin 0, Fin 0, Fin 0, Fin 0]),
         (''BBB'', sample_frame [Fin 0, Fin 0, Fin 0, Fin 0, Fin 0, Fin 0])] 2 0
        = Inr window_i
    \<and> windows_of
        [(''AAA'', sample_frame [Fin 0, Fin 0, Fin 0, Fin 0]),
         (''BBB'', sample_frame [Fin 0, Fin 0, Fin 0, Fin 0, Fin 0, Fin 0])] 2 1
        = Inr window_j
    \<and> length window_i = 2 \<and> length window_j = 3
    \<and> window_i ! 1 = slice [Fin 0, Fin 0, Fin 0, Fin 0] st en
    \<and> window_j ! 1 = slice [Fin 0, Fin 0, Fin 0, Fin 0, Fin 0, Fin 0] st en
    \<and> en - st = 2"
proof -
  let ?sd = "[(''AAA'', sample_frame [Fin 0, Fin 0, Fin 0, Fin 0]),
              (''BBB'', sample_frame [Fin 0, Fin 0, Fin 0, Fin 0, Fin 0, Fin 0])]"
  let ?ms = "[\<lparr>index = [''AAA'', ''BBB''], columns = [''AAA'', ''BBB''],
                matrix = [[NaN, NaN], [NaN, NaN]]\<rparr>,
              \<lparr>index = [''AAA'', ''BBB''], columns = [''AAA'', ''BBB''],
                matrix = [[NaN, NaN], [NaN, NaN]]\<rparr>]"
  have w: "1 < length ?ms" and i: "0 < length ?sd" and j: "1 < length ?sd" by simp_all
  from differing_lengths_raise_or_align [OF engine_longer_instrument w i j]
  obtain window_i window_j st en where
    wi: "windows_of ?sd 2 0 = Inr window_i" and wj: "windows_of ?sd 2 1 = Inr window_j" and
    si: "window_i ! 1 = slice (map Normalized_Return (instrument ?sd 0)) st en" and
    sj: "window_j ! 1 = slice (map Normalized_Return (instrument ?sd 1)) st en" and
    l: "length (window_i ! 1) = en - st"
    by blast
  from wi wj windows_of_longer have v: "window_i = [[Fin 0, Fin 0], [Fin 0, Fin 0]]"
    "window_j = [[Fin 0, Fin 0], [Fin 0, Fin 0], [Fin 0, Fin 0]]"
    by simp_all
  have n: "map Normalized_Return (instrument ?sd 0) = [Fin 0, Fin 0, Fin 0, Fin 0]"
    "map Normalized_Return (instrument ?sd 1) = [Fin 0, Fin 0, Fin 0, Fin 0, Fin 0, Fin 0]"
    by (simp_all add: instrument_0 instrument_1 sample_frame_def)
  from l v have "en - st = 2" by simp
  with engine_longer_instrument wi wj si sj v n show ?thesis
    by (intro exI [of _ ?ms] exI [of _ window_i] exI [of _ window_j] exI [of _ st]
        exI [of _ en]) simp
qed

subsection \<open>The main loop never raises\<close>

lemma length_return_series: "length (return_series df) = length df"
  by (simp add: return_series_def series_div_def series_sub_def)

lemma process_company_Inr:
  "\<exists>rows. process_company df = Inr rows \<and> length rows = length df
      \<and> map Return rows = return_series df
      \<and> calculate_normalized_returns_zero_mean (return_series df) window_size_normalize
          = Inr (map Normalized_Return rows)"
proof -
  have W: "0 < window_size_normalize" by (simp add: window_size_normalize_def)
  obtain chunks where c: "array_split (return_series df) window_size_normalize = Inr chunks"
    using W by (simp add: array_split_eq)
  let ?norm = "global_zscore (concat (map per_chunk_zscore chunks))"
  have n: "calculate_normalized_returns_zero_mean (return_series df) window_size_normalize
             = Inr ?norm"
    by (rule normalizer_eq [OF W c])
  have l: "length ?norm = length df"
    using concat_array_split [OF W c]
    by (simp add: length_concat_per_chunk length_return_series)
  let ?rows = "map (\<lambda>(r, x, y). \<lparr>Date = Date r, Open = Open r, Close = Close r,
                                      Return = x, Normalized_Return = y\<rparr>)
                    (zip df (zip (return_series df) ?norm))"
  have p: "process_company df = Inr ?rows"
    using n l by (simp add: process_company_def Let_def length_return_series)
  have "map Return ?rows = map (fst \<circ> snd) (zip df (zip (return_series df) ?norm))"
    by (simp add: comp_def case_prod_beta)
  also have "\<dots> = map fst (map snd (zip df (zip (return_series df) ?norm)))" by simp
  also have "\<dots> = return_series df" using l by (simp add: length_return_series)
  finally have r: "map Return ?rows = return_series df" .
  have "map Normalized_Return ?rows = map (snd \<circ> snd) (zip df (zip (return_series df) ?norm))"
    by (simp add: comp_def case_prod_beta)
  also have "\<dots> = map snd (map snd (zip df (zip (return_series df) ?norm)))" by simp
  also have "\<dots> = ?norm" using l by (simp add: length_return_series)
  finally have nr: "map Normalized_Return ?rows = ?norm" .
  have "length ?rows = length df" using l by (simp add: length_return_series)
  with p r nr n show ?thesis by simp
qed

subsection \<open>Matrix entries and the Pearson coefficient\<close>












section \<open>The normalizer in rounded arithmetic\<close>

subsection \<open>Rounding\<close>

lemma rounded_operations_exact:
  "fadd_r Fin a b = fadd a b" "fsub_r Fin a b = fsub a b" "fmul_r Fin a b = fmul a b"
  "fdiv_r Fin a b = fdiv a b" "fsqrt_r Fin a = fsqrt a"
  by (cases a; cases b; simp add: fsub_r_def fsub_def)+

lemma to_double_0 [simp]: "to_double 0 = Fin 0"
  by (simp add: to_double_def)

lemma pow2_pos: "(0::real) < 2 powi k"
  by (rule zero_less_power_int) simp

lemma floor_log2_eq:
  assumes "2 powi k \<le> \<bar>x\<bar>" and "\<bar>x\<bar> < 2 powi (k + 1)"
  shows "\<lfloor>log 2 \<bar>x\<bar>\<rfloor> = k"
proof -
  have pos: "0 < \<bar>x\<bar>"
    using assms(1) pow2_pos [of "k"] by linarith
  have a: "2 powr real_of_int k = (2::real) powi k"
    by (rule powr_real_of_int') simp_all
  have "2 powr real_of_int (k + 1) = (2::real) powi (k + 1)"
    by (rule powr_real_of_int') simp_all
  then have b: "2 powr (real_of_int k + 1) = (2::real) powi (k + 1)"
    by (simp only: of_int_add of_int_1)
  have "2 powr real_of_int k \<le> \<bar>x\<bar> \<and> \<bar>x\<bar> < 2 powr (real_of_int k + 1)"
    unfolding a b using assms by blast
  then show ?thesis
    using floor_log_eq_powr_iff [of "\<bar>x\<bar>" 2 k] pos by simp
qed

lemma round_half_even_near:
  assumes "of_int n - 1 / 2 < x" and "x < of_int n + 1 / 2"
  shows "round_half_even x = n"
proof -
  have "\<lfloor>x\<rfloor> = n \<or> \<lfloor>x\<rfloor> = n - 1" using assms by linarith
  then show ?thesis
  proof
    assume "\<lfloor>x\<rfloor> = n"
    moreover from this have "x - of_int n < 1 / 2" using assms by simp
    ultimately show ?thesis by (simp add: round_half_even_def Let_def)
  next
    assume f: "\<lfloor>x\<rfloor> = n - 1"
    then have "1 / 2 < x - of_int (n - 1)" using assms by simp
    with f show ?thesis by (simp add: round_half_even_def Let_def)
  qed
qed

lemma round_half_even_int [simp]: "round_half_even (of_int n) = n"
  by (rule round_half_even_near) simp_all

lemma pow2_shift:
  assumes "j = int n + i"
  shows "(2::real) ^ n * 2 powi i = 2 powi j"
proof -
  have a: "(2::real) ^ n = 2 powi (int n)" by (simp only: power_int_of_nat)
  have b: "(2::real) powi (int n + i) = 2 powi (int n) * 2 powi i"
    by (rule power_int_add) simp
  show ?thesis unfolding assms a b ..
qed

lemma to_double_eval:
  assumes "2 powi k \<le> \<bar>x\<bar>" and "\<bar>x\<bar> < 2 powi (k + 1)"
    and "- 1022 \<le> k" and "k \<le> 1022"
    and "round_half_even (x / 2 powi (k - 52)) = n" and "\<bar>n\<bar> \<le> 2 ^ 53"
  shows "to_double x = Fin (of_int n * 2 powi (k - 52))"
proof -
  have x0: "x \<noteq> 0"
    using assms(1) pow2_pos [of "k"] by linarith
  have e: "max \<lfloor>log 2 \<bar>x\<bar>\<rfloor> (- 1022) = k"
    using floor_log2_eq [OF assms(1,2)] assms(3) by simp
  have q: "(0::real) < 2 powi (k - 52)" by (simp add: zero_less_power_int)
  have "\<bar>real_of_int n * 2 powi (k - 52)\<bar> = \<bar>real_of_int n\<bar> * 2 powi (k - 52)"
    using q by (simp add: abs_mult)
  also have "\<dots> \<le> 2 ^ 53 * 2 powi (k - 52)"
  proof (rule mult_right_mono)
    have "real_of_int \<bar>n\<bar> \<le> real_of_int (2 ^ 53)" using assms(6) by (simp only: of_int_le_iff)
    then show "\<bar>real_of_int n\<bar> \<le> 2 ^ 53" by simp
    show "0 \<le> (2::real) powi (k - 52)" using q by simp
  qed
  also have "\<dots> = 2 powi (k + 1)"
    by (rule pow2_shift) simp
  also have "\<dots> < 2 powi 1024"
    by (rule power_int_strict_increasing) (use assms(4) in simp_all)
  finally have no: "\<not> 2 powi 1024 \<le> \<bar>real_of_int n * 2 powi (k - 52)\<bar>" by simp
  show ?thesis
    using x0 no by (simp add: to_double_def e assms(5) Let_def)
qed

lemma to_double_representable:
  assumes "x = of_int m * 2 powi e" and "2 ^ 52 \<le> \<bar>m\<bar>" and "\<bar>m\<bar> < 2 ^ 53"
    and "- 1074 \<le> e" and "e \<le> 970"
  shows "to_double x = Fin x"
proof -
  have q: "(0::real) < 2 powi e" by (simp add: zero_less_power_int)
  have ax: "\<bar>x\<bar> = real_of_int \<bar>m\<bar> * 2 powi e"
    using q by (simp add: assms(1) abs_mult)
  have lo: "2 powi (e + 52) \<le> \<bar>x\<bar>"
  proof -
    have "(2::real) powi (e + 52) = real_of_int (2 ^ 52) * 2 powi e"
      by (simp only: of_int_power of_int_numeral) (rule pow2_shift [symmetric], simp)
    also have "\<dots> \<le> real_of_int \<bar>m\<bar> * 2 powi e"
      using assms(2) q by (intro mult_right_mono) (simp_all only: of_int_le_iff less_imp_le)
    finally show ?thesis by (simp only: ax)
  qed
  have hi: "\<bar>x\<bar> < 2 powi (e + 52 + 1)"
  proof -
    have "real_of_int \<bar>m\<bar> * 2 powi e < real_of_int (2 ^ 53) * 2 powi e"
      using assms(3) q by (intro mult_strict_right_mono) (simp_all only: of_int_less_iff)
    also have "\<dots> = (2::real) powi (e + 52 + 1)"
      by (simp only: of_int_power of_int_numeral) (rule pow2_shift, simp)
    finally show ?thesis by (simp only: ax)
  qed
  have r: "round_half_even (x / 2 powi (e + 52 - 52)) = m"
    using q by (simp add: assms(1))
  have "to_double x = Fin (of_int m * 2 powi (e + 52 - 52))"
    by (rule to_double_eval [OF lo hi _ _ r]) (use assms in simp_all)
  then show ?thesis by (simp add: assms(1))
qed

subsection \<open>The roundings of the examples\<close>

lemma pairwise_sum_short:
  "length a < 8 \<Longrightarrow> pairwise_sum pack a = fold (\<lambda>x res. fadd_r pack res x) a (Fin 0)"
  by (simp add: Let_def)

declare pairwise_sum.simps [simp del]

(* [('Fin', Fraction(-1, 1)), ('Fin', Fraction(-1, 1)), ('Fin', Fraction(-1, 1))] [('Fin', Fraction(1, 1)), ('Fin', Fraction(1, 1)), ('Fin', Fraction(1, 1))] *)
(* [('Fin', Fraction(-1, 1)), ('Fin', Fraction(-1, 1)), ('Fin', Fraction(-1, 1)), ('Fin', Fraction(1, 1)), ('Fin', Fraction(1, 1)), ('Fin', Fraction(1, 1))] *)

lemma roundings_integers:
  "to_double (- 1) = Fin (- 1)"
  "to_double 1 = Fin 1"
  "to_double (- 2) = Fin (- 2)"
  "to_double 2 = Fin 2"
  "to_double (- 3) = Fin (- 3)"
  "to_double 3 = Fin 3"
  "to_double 4 = Fin 4"
  "to_double 5 = Fin 5"
  "to_double 6 = Fin 6"
  "to_double 10 = Fin 10"
  using to_double_eval [of "0" "- 1" "- 4503599627370496"]
    to_double_eval [of "0" "1" "4503599627370496"]
    to_double_eval [of "1" "- 2" "- 4503599627370496"]
    to_double_eval [of "1" "2" "4503599627370496"]
    to_double_eval [of "1" "- 3" "- 6755399441055744"]
    to_double_eval [of "1" "3" "6755399441055744"]
    to_double_eval [of "2" "4" "4503599627370496"]
    to_double_eval [of "2" "5" "5629499534213120"]
    to_double_eval [of "2" "6" "6755399441055744"]
    to_double_eval [of "3" "10" "5629499534213120"]
  by (simp_all add: power_int_minus round_half_even_def Let_def)

lemma roundings_tenth:
  "to_double (1 / 5192296858534827628530496329220096) = Fin (1 / 5192296858534827628530496329220096)"
  "to_double (1 / 2596148429267413814265248164610048) = Fin (1 / 2596148429267413814265248164610048)"
  "to_double (3 / 5192296858534827628530496329220096) = Fin (3 / 5192296858534827628530496329220096)"
  "to_double (- (1 / 72057594037927936)) = Fin (- (1 / 72057594037927936))"
  "to_double (1 / 72057594037927936) = Fin (1 / 72057594037927936)"
  "to_double (3602879701896397 / 36028797018963968) = Fin (3602879701896397 / 36028797018963968)"
  "to_double (1351079888211149 / 13510798882111488) = Fin (7205759403792795 / 72057594037927936)"
  "to_double (3602879701896397 / 18014398509481984) = Fin (3602879701896397 / 18014398509481984)"
  "to_double (10808639105689191 / 36028797018963968) = Fin (1351079888211149 / 4503599627370496)"
  "to_double (1351079888211149 / 4503599627370496) = Fin (1351079888211149 / 4503599627370496)"
  using to_double_eval [of "- 112" "1 / 5192296858534827628530496329220096" "4503599627370496"]
    to_double_eval [of "- 111" "1 / 2596148429267413814265248164610048" "4503599627370496"]
    to_double_eval [of "- 111" "3 / 5192296858534827628530496329220096" "6755399441055744"]
    to_double_eval [of "- 56" "- (1 / 72057594037927936)" "- 4503599627370496"]
    to_double_eval [of "- 56" "1 / 72057594037927936" "4503599627370496"]
    to_double_eval [of "- 4" "3602879701896397 / 36028797018963968" "7205759403792794"]
    to_double_eval [of "- 4" "1351079888211149 / 13510798882111488" "7205759403792795"]
    to_double_eval [of "- 3" "3602879701896397 / 18014398509481984" "7205759403792794"]
    to_double_eval [of "- 2" "10808639105689191 / 36028797018963968" "5404319552844596"]
    to_double_eval [of "- 2" "1351079888211149 / 4503599627370496" "5404319552844596"]
  by (simp_all add: power_int_minus round_half_even_def Let_def)

lemma roundings_below_one:
  "to_double (1 / 81129638414606681695789005144064) = Fin (1 / 81129638414606681695789005144064)"
  "to_double (1 / 40564819207303340847894502572032) = Fin (1 / 40564819207303340847894502572032)"
  "to_double (3 / 81129638414606681695789005144064) = Fin (3 / 81129638414606681695789005144064)"
  "to_double (1 / 9007199254740992) = Fin (1 / 9007199254740992)"
  "to_double (3377699720527871 / 3377699720527872) = Fin (9007199254740989 / 9007199254740992)"
  "to_double (4503599627370495 / 4503599627370496) = Fin (4503599627370495 / 4503599627370496)"
  "to_double (4503599627370495 / 2251799813685248) = Fin (4503599627370495 / 2251799813685248)"
  "to_double (3377699720527871 / 1125899906842624) = Fin (3377699720527871 / 1125899906842624)"
  "to_double (13510798882111485 / 4503599627370496) = Fin (3377699720527871 / 1125899906842624)"
  using to_double_eval [of "- 106" "1 / 81129638414606681695789005144064" "4503599627370496"]
    to_double_eval [of "- 105" "1 / 40564819207303340847894502572032" "4503599627370496"]
    to_double_eval [of "- 105" "3 / 81129638414606681695789005144064" "6755399441055744"]
    to_double_eval [of "- 53" "1 / 9007199254740992" "4503599627370496"]
    to_double_eval [of "- 1" "3377699720527871 / 3377699720527872" "9007199254740989"]
    to_double_eval [of "- 1" "4503599627370495 / 4503599627370496" "9007199254740990"]
    to_double_eval [of "0" "4503599627370495 / 2251799813685248" "9007199254740990"]
    to_double_eval [of "1" "3377699720527871 / 1125899906842624" "6755399441055742"]
    to_double_eval [of "1" "13510798882111485 / 4503599627370496" "6755399441055742"]
  by (simp_all add: power_int_minus round_half_even_def Let_def)

lemma square_roots:
  "sqrt (1 / 5192296858534827628530496329220096) = 1 / 72057594037927936"
  "sqrt (1 / 81129638414606681695789005144064) = 1 / 9007199254740992"
  by (rule real_sqrt_unique; simp add: power2_eq_square)+

subsection \<open>Special values in sums\<close>

lemma carries_antimono: "carries S v \<Longrightarrow> T \<subseteq> S \<Longrightarrow> carries T v"
  by (auto simp: carries_def)

lemma carries_empty [simp]: "carries {} v"
  by (simp add: carries_def)

lemma carries_single [simp]: "carries {x} x"
  by (simp add: carries_def)

lemma carries_add:
  assumes "carries S u" and "carries T v"
  shows "carries (S \<union> T) (fadd_r pack u v)"
  using assms unfolding carries_def by (cases u; cases v) auto

lemma carries_fold:
  assumes "carries S v"
  shows "carries (S \<union> set xs) (fold (\<lambda>x res. fadd_r pack res x) xs v)"
  using assms
proof (induction xs arbitrary: S v)
  case Nil
  then show ?case by simp
next
  case (Cons x xs)
  have "carries (S \<union> {x}) (fadd_r pack v x)"
    by (rule carries_add [OF Cons.prems carries_single])
  from Cons.IH [OF this] show ?case by (simp add: Un_assoc)
qed

lemma carries_pairwise: "carries (set a) (pairwise_sum pack a)"
proof (induction pack a rule: pairwise_sum.induct)
  case (1 pack a)
  let ?n = "length a"
  let ?add = "\<lambda>x res. fadd_r pack res x"
  consider (short) "?n < 8" | (block) "\<not> ?n < 8" "?n \<le> 128" | (split) "\<not> ?n < 8" "\<not> ?n \<le> 128"
    by blast
  then show ?case
  proof cases
    case short
    have "carries ({} \<union> set a) (fold ?add a (Fin 0))" by (rule carries_fold) simp
    with short show ?thesis by (simp add: pairwise_sum.simps [of pack a])
  next
    case block
    define m where "m = ?n - ?n mod 8"
    define col where "col j = map (\<lambda>i. a ! (i + j)) (map ((*) 8) [1..<m div 8])" for j
    define r where "r = map (\<lambda>j. fold ?add (col j) (a ! j)) [0..<8]"
    define res where "res = fadd_r pack
        (fadd_r pack (fadd_r pack (r ! 0) (r ! 1)) (fadd_r pack (r ! 2) (r ! 3)))
        (fadd_r pack (fadd_r pack (r ! 4) (r ! 5)) (fadd_r pack (r ! 6) (r ! 7)))"
    define R where "R j = {a ! j} \<union> set (col j)" for j
    have fm: "fold (\<lambda>i rj. fadd_r pack rj (a ! (i + j))) (map ((*) 8) [1..<m div 8]) v
                = fold ?add (col j) v" for j v
      by (simp add: col_def fold_map comp_def)
    have eq: "pairwise_sum pack a = fold ?add (drop m a) res"
      by (subst pairwise_sum.simps)
        (simp only: Let_def block if_False if_True fm m_def [symmetric] res_def r_def)
    have rj: "carries (R j) (r ! j)" if "j < 8" for j
    proof -
      have "r ! j = fold ?add (col j) (a ! j)" using that by (simp add: r_def del: upt_Suc)
      moreover have "carries ({a ! j} \<union> set (col j)) (fold ?add (col j) (a ! j))"
        by (rule carries_fold) simp
      ultimately show ?thesis by (simp add: R_def)
    qed
    have "carries (((R 0 \<union> R 1) \<union> (R 2 \<union> R 3)) \<union> ((R 4 \<union> R 5) \<union> (R 6 \<union> R 7))) res"
      unfolding res_def by (intro carries_add rj) simp_all
    then have c: "carries ((((R 0 \<union> R 1) \<union> (R 2 \<union> R 3)) \<union> ((R 4 \<union> R 5) \<union> (R 6 \<union> R 7)))
                     \<union> set (drop m a)) (fold ?add (drop m a) res)"
      by (rule carries_fold)
    have sub: "set a \<subseteq> (((R 0 \<union> R 1) \<union> (R 2 \<union> R 3)) \<union> ((R 4 \<union> R 5) \<union> (R 6 \<union> R 7)))
                  \<union> set (drop m a)"
    proof
      fix x assume "x \<in> set a"
      then obtain i where i: "i < ?n" "x = a ! i" by (auto simp: in_set_conv_nth)
      show "x \<in> (((R 0 \<union> R 1) \<union> (R 2 \<union> R 3)) \<union> ((R 4 \<union> R 5) \<union> (R 6 \<union> R 7))) \<union> set (drop m a)"
      proof (cases "i < m")
        case False
        then have "a ! i = drop m a ! (i - m)" "i - m < length (drop m a)"
          using i(1) by simp_all
        then have "x \<in> set (drop m a)" unfolding i(2) by (metis nth_mem)
        then show ?thesis by simp
      next
        case True
        define j where "j = i mod 8"
        define t where "t = i div 8"
        have ij: "i = 8 * t + j" by (simp add: j_def t_def)
        have j8: "j < 8" by (simp add: j_def)
        have m8: "m mod 8 = 0" unfolding m_def by (simp add: mod_eq_0_iff_dvd dvd_minus_mod)
        have tm: "t < m div 8" using True m8 unfolding t_def by (simp add: div_less_iff_less_mult mod_eq_0_iff_dvd) 
        have "x \<in> R j"
        proof (cases "t = 0")
          case True
          then show ?thesis by (simp add: R_def i(2) ij)
        next
          case False
          then have "8 * t \<in> set (map ((*) 8) [1..<m div 8])" using tm by auto
          then have "a ! (8 * t + j) \<in> set (col j)" unfolding col_def by (auto simp del: upt_Suc)
          then show ?thesis by (simp add: R_def i(2) ij)
        qed
        moreover have "j = 0 \<or> j = 1 \<or> j = 2 \<or> j = 3 \<or> j = 4 \<or> j = 5 \<or> j = 6 \<or> j = 7"
          using j8 by arith
        ultimately show ?thesis by auto
      qed
    qed
    show ?thesis unfolding eq by (rule carries_antimono [OF c sub])
  next
    case split
    define n2 where "n2 = ?n div 2 - ?n div 2 mod 8"
    have eq: "pairwise_sum pack a
                = fadd_r pack (pairwise_sum pack (take n2 a)) (pairwise_sum pack (drop n2 a))"
      using split by (simp add: pairwise_sum.simps [of pack a] Let_def n2_def)
    have "carries (set (take n2 a)) (pairwise_sum pack (take n2 a))"
      by (rule "1.IH"(1) [OF refl split n2_def])
    moreover have "carries (set (drop n2 a)) (pairwise_sum pack (drop n2 a))"
      by (rule "1.IH"(2) [OF refl split n2_def])
    ultimately have "carries (set (take n2 a) \<union> set (drop n2 a))
        (fadd_r pack (pairwise_sum pack (take n2 a)) (pairwise_sum pack (drop n2 a)))"
      by (rule carries_add)
    moreover have "set (take n2 a) \<union> set (drop n2 a) = set a"
      by (metis append_take_drop_id set_append)
    ultimately show ?thesis unfolding eq by simp
  qed
qed

lemma carries_np_sum: "carries (set a) (np_sum_r pack a)"
proof -
  have "carries ({} \<union> set a) (fadd_r pack (Fin 0) (pairwise_sum pack a))"
    by (rule carries_add [OF carries_empty carries_pairwise])
  then show ?thesis by (simp add: np_sum_r_def)
qed

subsection \<open>Degenerate chunks\<close>

lemma fdiv_r_NaN_right [simp]: "fdiv_r pack a NaN = NaN"
  by (cases a) auto

lemma fdiv_r_zero_not_finite: "\<not> is_finite (fdiv_r pack x (Fin 0))"
  by (cases x) auto

lemma fsub_r_NaN_right [simp]: "fsub_r pack a NaN = NaN"
  by (cases a) (auto simp: fsub_r_def)

lemma np_sum_r_NaN: "NaN \<in> set a \<Longrightarrow> np_sum_r pack a = NaN"
  using carries_np_sum [of a pack] by (simp add: carries_def)

lemma np_std_r_nonfinite:
  assumes "x \<in> set a" and "\<not> is_finite x"
  shows "np_std_r pack a = NaN"
proof -
  let ?m = "np_mean_r pack a"
  have n: "0 < real (length a)" using assms(1) by (cases a) auto
  have c: "carries (set a) (np_sum_r pack a)" by (rule carries_np_sum)
  have "fsub_r pack x ?m = NaN"
  proof (cases x)
    case (Fin r)
    with assms(2) show ?thesis by simp
  next
    case PInf
    with c assms(1) have "np_sum_r pack a = PInf \<or> np_sum_r pack a = NaN"
      by (auto simp: carries_def)
    then have "?m = PInf \<or> ?m = NaN" using n by (auto simp: np_mean_r_def)
    then show ?thesis using PInf by (auto simp: fsub_r_def)
  next
    case NInf
    with c assms(1) have "np_sum_r pack a = NInf \<or> np_sum_r pack a = NaN"
      by (auto simp: carries_def)
    then have "?m = NInf \<or> ?m = NaN" using n by (auto simp: np_mean_r_def)
    then show ?thesis using NInf by (auto simp: fsub_r_def)
  next
    case NaN
    then show ?thesis by (simp add: fsub_r_def)
  qed
  then have "fmul_r pack (fsub_r pack x ?m) (fsub_r pack x ?m) = NaN" by simp
  with assms(1) have "NaN \<in> set (map (\<lambda>d. fmul_r pack d d) (map (\<lambda>v. fsub_r pack v ?m) a))"
    by (force simp: image_iff)
  then have "np_sum_r pack (map (\<lambda>d. fmul_r pack d d) (map (\<lambda>v. fsub_r pack v ?m) a)) = NaN"
    by (rule np_sum_r_NaN)
  then show ?thesis by (simp add: np_std_r_def np_var_r_def Let_def)
qed

lemma zscore_r_nonfinite:
  assumes "x \<in> set a" and "\<not> is_finite x" and "y \<in> set (zscore_r pack a)"
  shows "y = NaN"
  using assms(3) np_std_r_nonfinite [OF assms(1,2)]
  by (auto simp: zscore_r_def Let_def split: if_splits)

lemma per_chunk_zscore_r_zero_std:
  assumes "np_std_r pack c = Fin 0" and "y \<in> set (per_chunk_zscore_r pack c)"
  shows "\<not> is_finite y"
  using assms by (auto simp: per_chunk_zscore_r_def fdiv_r_zero_not_finite)

lemma np_std_r_single:
  assumes "pack 0 = Fin 0" and "pack r = Fin r"
  shows "np_mean_r pack [Fin r] = Fin r" and "np_std_r pack [Fin r] = Fin 0"
proof -
  show m: "np_mean_r pack [Fin r] = Fin r"
    using assms by (simp add: np_mean_r_def np_sum_r_def pairwise_sum_short)
  show "np_std_r pack [Fin r] = Fin 0"
    using assms by (simp add: np_std_r_def np_var_r_def m fsub_r_def np_sum_r_def pairwise_sum_short)
qed

lemma per_chunk_zscore_r_single:
  assumes "pack 0 = Fin 0" and "is_finite x \<longrightarrow> pack (case x of Fin r \<Rightarrow> r | _ \<Rightarrow> 0) = x"
  shows "per_chunk_zscore_r pack [x] = [NaN]"
proof (cases "is_finite x")
  case True
  then obtain r where r: "x = Fin r" by (cases x) auto
  with assms(2) have p: "pack r = Fin r" by simp
  show ?thesis
    using assms(1) p
    by (simp add: per_chunk_zscore_r_def r np_std_r_single [of pack r, OF assms(1) p] fsub_r_def)
next
  case False
  have "np_std_r pack [x] = NaN" by (rule np_std_r_nonfinite [OF _ False]) simp
  then show ?thesis by (simp add: per_chunk_zscore_r_def)
qed

lemma window_loop_r_eq:
  "window_loop_r pack window acc = acc @ per_chunk_zscore_r pack window"
  by (simp add: window_loop_r_def per_chunk_zscore_r_def fold_append_map)

lemma fold_window_loop_r:
  "fold (window_loop_r pack) windows acc
     = acc @ concat (map (per_chunk_zscore_r pack) windows)"
  by (induction windows arbitrary: acc) (auto simp: window_loop_r_eq)

lemma length_per_chunk_zscore_r [simp]: "length (per_chunk_zscore_r pack c) = length c"
  by (simp add: per_chunk_zscore_r_def)

lemma length_zscore_r [simp]: "length (zscore_r pack a) = length a"
  by (simp add: zscore_r_def Let_def)

lemma length_concat_per_chunk_r:
  "length (concat (map (per_chunk_zscore_r pack) chunks)) = length (concat chunks)"
  by (induction chunks) auto

lemma normalizer_r_eq:
  assumes "array_split returns W = Inr chunks"
  shows "calculate_normalized_returns_zero_mean_r pack returns W
           = Inr (zscore_r pack (concat (map (per_chunk_zscore_r pack) chunks)))"
  using assms by (simp add: calculate_normalized_returns_zero_mean_r_def fold_window_loop_r)

lemma np_std_r_Nil: "pack 0 = Fin 0 \<Longrightarrow> np_std_r pack [] = NaN"
  by (simp add: np_std_r_def np_var_r_def np_mean_r_def np_sum_r_def pairwise_sum_short)

text \<open>
  C6, as amended.  When the split of the input has a chunk of size 1, or a chunk whose
  standard deviation as \<open>np.std\<close> computes it is \<open>0\<close>, the normalizer raises nothing: it
  returns a sequence of the length of the input, the values that the loop computes for
  that chunk are all non-finite, and every value of the result is \<open>nan\<close> (the z-score of
  a sequence with a non-finite member is \<open>nan\<close> throughout).  This holds for every
  rounding that keeps \<open>0\<close> and the input values, which are \<open>float64\<close> values already.
\<close>

theorem zero_std_chunk_non_finite:
  assumes "pack 0 = Fin 0" and "\<forall>r. Fin r \<in> set returns \<longrightarrow> pack r = Fin r"
    and "0 < W" and "array_split returns W = Inr chunks" and "chunk \<in> set chunks"
    and "length chunk = 1 \<or> np_std_r pack chunk = Fin 0"
  shows "\<exists>out. calculate_normalized_returns_zero_mean_r pack returns W = Inr out
           \<and> length out = length returns
           \<and> (\<forall>y\<in>set (window_loop_r pack chunk []). \<not> is_finite y)
           \<and> (\<forall>y\<in>set out. y = NaN)"
proof -
  let ?pc = "concat (map (per_chunk_zscore_r pack) chunks)"
  let ?out = "zscore_r pack ?pc"
  have r: "calculate_normalized_returns_zero_mean_r pack returns W = Inr ?out"
    by (rule normalizer_r_eq [OF assms(4)])
  have cc: "concat chunks = returns" by (rule concat_array_split [OF assms(3,4)])
  have len: "length ?out = length returns"
    using cc by (simp add: length_concat_per_chunk_r)
  have pc: "\<forall>y\<in>set (per_chunk_zscore_r pack chunk). \<not> is_finite y"
  proof (cases "length chunk = 1")
    case True
    then obtain x where x: "chunk = [x]" by (cases chunk) auto
    have "x \<in> set chunk" by (simp add: x)
    with assms(5) have "x \<in> set (concat chunks)" by auto
    then have "x \<in> set returns" by (simp only: cc)
    with assms(2) have "is_finite x \<longrightarrow> pack (case x of Fin r \<Rightarrow> r | _ \<Rightarrow> 0) = x"
      by (cases x) auto
    from per_chunk_zscore_r_single [of pack x, OF assms(1) this] show ?thesis by (simp add: x)
  next
    case False
    with assms(6) have "np_std_r pack chunk = Fin 0" by simp
    then show ?thesis using per_chunk_zscore_r_zero_std by blast
  qed
  have ne: "chunk \<noteq> []" using assms(1,6) np_std_r_Nil [of pack] by auto
  then obtain x where x: "x \<in> set (per_chunk_zscore_r pack chunk)"
    by (cases chunk) (auto simp: per_chunk_zscore_r_def)
  with pc have nf: "\<not> is_finite x" by blast
  have "x \<in> set ?pc" using x assms(5) by auto
  from zscore_r_nonfinite [OF this nf] have "\<forall>y\<in>set ?out. y = NaN" by blast
  moreover have "\<forall>y\<in>set (window_loop_r pack chunk []). \<not> is_finite y"
    using pc by (simp add: window_loop_r_eq)
  ultimately show ?thesis using r len by blast
qed

lemma array_split_example2:
  "array_split [Fin 1, Fin 3, Fin 5, Fin 5] 2 = Inr [[Fin 1, Fin 3], [Fin 5, Fin 5]]"
  by (simp add: array_split_eq div_point_def slice_def upt_rec)

lemma np_std_r_example:
  "np_mean_r to_double [Fin 5, Fin 5] = Fin 5"
  "np_std_r to_double [Fin 5, Fin 5] = Fin 0"
  by (simp_all add: np_std_r_def np_var_r_def np_mean_r_def np_sum_r_def pairwise_sum_short
      fsub_r_def Let_def roundings_integers)

lemma all_NaN_replicate: "\<forall>y\<in>set xs. y = NaN \<Longrightarrow> xs = replicate (length xs) NaN"
  by (simp add: replicate_length_same)

theorem zero_std_chunk_non_finite_witness:
  "np_std_r to_double [Fin 5, Fin 5] = Fin 0
   \<and> window_loop_r to_double [Fin 5, Fin 5] [] = [NaN, NaN]
   \<and> calculate_normalized_returns_zero_mean_r to_double [Fin 1, Fin 3, Fin 5, Fin 5] 2
       = Inr [NaN, NaN, NaN, NaN]"
proof -
  have z: "to_double 0 = Fin 0" by simp
  have rep: "\<forall>r. Fin r \<in> set [Fin 1, Fin 3, Fin 5, Fin 5] \<longrightarrow> to_double r = Fin r"
    by (auto simp: roundings_integers)
  have m: "[Fin 5, Fin 5] \<in> set [[Fin 1, Fin 3], [Fin 5, Fin 5]]" by simp
  have d: "length [Fin 5, Fin 5] = 1 \<or> np_std_r to_double [Fin 5, Fin 5] = Fin 0"
    by (simp add: np_std_r_example)
  from zero_std_chunk_non_finite [OF z rep _ array_split_example2 m d] obtain out where
    r: "calculate_normalized_returns_zero_mean_r to_double [Fin 1, Fin 3, Fin 5, Fin 5] 2 = Inr out"
    and l: "length out = 4" and a: "\<forall>y\<in>set out. y = NaN"
    by auto
  from a have "out = replicate (length out) NaN" by (rule all_NaN_replicate)
  with l have "out = [NaN, NaN, NaN, NaN]" by (simp add: numeral_eq_Suc)
  moreover have "window_loop_r to_double [Fin 5, Fin 5] [] = [NaN, NaN]"
    by (simp add: window_loop_r_eq per_chunk_zscore_r_def np_std_r_example fsub_r_def)
  ultimately show ?thesis using r by (simp add: np_std_r_example)
qed

lemma array_split_example4:
  "array_split [Fin tenth, Fin tenth, Fin tenth, Fin below_one, Fin below_one, Fin below_one] 2
     = Inr [[Fin tenth, Fin tenth, Fin tenth], [Fin below_one, Fin below_one, Fin below_one]]"
  by (simp add: array_split_eq div_point_def slice_def upt_rec)

lemma window_loop_r_tenth:
  "np_mean_r to_double [Fin tenth, Fin tenth, Fin tenth] = Fin (7205759403792795 / 2 ^ 56)"
  "np_std_r to_double [Fin tenth, Fin tenth, Fin tenth] = Fin (1 / 2 ^ 56)"
  "window_loop_r to_double [Fin tenth, Fin tenth, Fin tenth] [] = [Fin (- 1), Fin (- 1), Fin (- 1)]"
  by (simp_all add: window_loop_r_eq per_chunk_zscore_r_def np_std_r_def np_var_r_def np_mean_r_def
      np_sum_r_def pairwise_sum_short fsub_r_def tenth_def Let_def roundings_integers roundings_tenth square_roots)

lemma window_loop_r_below_one:
  "np_mean_r to_double [Fin below_one, Fin below_one, Fin below_one]
     = Fin (9007199254740989 / 2 ^ 53)"
  "np_std_r to_double [Fin below_one, Fin below_one, Fin below_one] = Fin (1 / 2 ^ 53)"
  "window_loop_r to_double [Fin below_one, Fin below_one, Fin below_one] []
     = [Fin 1, Fin 1, Fin 1]"
  by (simp_all add: window_loop_r_eq per_chunk_zscore_r_def np_std_r_def np_var_r_def np_mean_r_def
      np_sum_r_def pairwise_sum_short fsub_r_def below_one_def Let_def roundings_integers
      roundings_below_one square_roots)

lemma zscore_r_example:
  "zscore_r to_double [Fin (- 1), Fin (- 1), Fin (- 1), Fin 1, Fin 1, Fin 1]
     = [Fin (- 1), Fin (- 1), Fin (- 1), Fin 1, Fin 1, Fin 1]"
  by (simp add: zscore_r_def np_std_r_def np_var_r_def np_mean_r_def np_sum_r_def
      pairwise_sum_short fsub_r_def Let_def roundings_integers)

text \<open>
  C6, as stated, fails for a chunk of equal values.  The sum of three copies of \<open>0.1\<close> is
  rounded to \<open>0.30000000000000004\<close> and their mean to \<open>0.10000000000000002\<close>, so every
  deviation from the mean is \<open>-2^(-56)\<close>, the standard deviation is \<open>2^(-56)\<close> and not \<open>0\<close>, and
  the loop computes \<open>-1.0\<close> for each element.  With a second chunk of three copies of
  \<open>0.9999999999999998\<close>, for which it computes \<open>1.0\<close>, the normalizer returns six finite
  values.
\<close>

theorem constant_chunk_finite_counterexample:
  "to_double tenth = Fin tenth \<and> to_double below_one = Fin below_one
   \<and> np_std_r to_double [Fin tenth, Fin tenth, Fin tenth] = Fin (1 / 2 ^ 56)
   \<and> window_loop_r to_double [Fin tenth, Fin tenth, Fin tenth] []
       = [Fin (- 1), Fin (- 1), Fin (- 1)]
   \<and> calculate_normalized_returns_zero_mean_r to_double
         [Fin tenth, Fin tenth, Fin tenth, Fin below_one, Fin below_one, Fin below_one] 2
       = Inr [Fin (- 1), Fin (- 1), Fin (- 1), Fin 1, Fin 1, Fin 1]"
proof -
  have "to_double tenth = Fin tenth" by (simp add: tenth_def roundings_tenth)
  moreover have "to_double below_one = Fin below_one"
    by (simp add: below_one_def roundings_below_one)
  moreover have "calculate_normalized_returns_zero_mean_r to_double
         [Fin tenth, Fin tenth, Fin tenth, Fin below_one, Fin below_one, Fin below_one] 2
       = Inr [Fin (- 1), Fin (- 1), Fin (- 1), Fin 1, Fin 1, Fin 1]"
    unfolding normalizer_r_eq [OF array_split_example4]
    using window_loop_r_tenth(3) window_loop_r_below_one(3)
    by (simp add: window_loop_r_eq zscore_r_example)
  ultimately show ?thesis by (simp add: window_loop_r_tenth)
qed

section \<open>The diagonal in rounded arithmetic\<close>

subsection \<open>The loops of the engine\<close>

text \<open>
  What the loops of the engine write does not depend on \<open>np.corrcoef\<close>: the facts about
  the exact engine hold for the engine over any \<open>corr\<close>, by the same proofs.
\<close>

lemma pair_body_Inr_r:
  assumes "pair_body_r corr sd ws names w i j m = Inr m'" "dims n m" "i < n" "j < n"
  shows "\<exists>v. Cij_num_win_r corr sd ws names w i j = Inr v \<and> dims n m'
           \<and> (\<forall>a<n. \<forall>b<n. m' ! a ! b
                 = (if (a = i \<and> b = j) \<or> (a = j \<and> b = i) then v else m ! a ! b))"
proof -
  from assms(1) obtain v m1 where
    v: "Cij_num_win_r corr sd ws names w i j = Inr v" and
    m1: "setitem2 m i j v = Inr m1" and m': "setitem2 m1 j i v = Inr m'"
    by (auto simp: pair_body_r_def ebind_Inr_iff)
  from setitem2_dims [OF assms(2,3,4), of v] m1
  have d1: "dims n m1" and e1: "\<forall>a<n. \<forall>b<n. m1 ! a ! b = (if a = i \<and> b = j then v else m ! a ! b)"
    by auto
  from setitem2_dims [OF d1 assms(4,3), of v] m'
  have d2: "dims n m'" and e2: "\<forall>a<n. \<forall>b<n. m' ! a ! b = (if a = j \<and> b = i then v else m1 ! a ! b)"
    by auto
  have "\<forall>a<n. \<forall>b<n. m' ! a ! b
          = (if (a = i \<and> b = j) \<or> (a = j \<and> b = i) then v else m ! a ! b)"
  proof (intro allI impI)
    fix a b assume ab: "a < n" "b < n"
    have 1: "m' ! a ! b = (if a = j \<and> b = i then v else m1 ! a ! b)"
      using e2 ab by blast
    have 2: "m1 ! a ! b = (if a = i \<and> b = j then v else m ! a ! b)"
      using e1 ab by blast
    show "m' ! a ! b
          = (if (a = i \<and> b = j) \<or> (a = j \<and> b = i) then v else m ! a ! b)"
      by (rule if_merge [OF 1 2])
  qed
  with v d2 show ?thesis by blast
qed

lemma foldM_pairs_Inr_r:
  assumes "foldM (\<lambda>(i, j). pair_body_r corr sd ws names w i j) ps m0 = Inr m"
    and "dims n m0" and "\<forall>(i, j)\<in>set ps. i \<le> j \<and> j < n"
  shows "dims n m
       \<and> (\<forall>(i, j)\<in>set ps. \<exists>v. Cij_num_win_r corr sd ws names w i j = Inr v)
       \<and> (\<forall>a<n. \<forall>b<n. m ! a ! b =
            (if (min a b, max a b) \<in> set ps
             then projr (Cij_num_win_r corr sd ws names w (min a b) (max a b))
             else m0 ! a ! b))"
  using assms
proof (induction ps arbitrary: m0)
  case Nil
  then show ?case by simp
next
  case (Cons p ps)
  obtain i j where p: "p = (i, j)" by (cases p)
  from Cons.prems(1) p obtain m1 where
    m1: "pair_body_r corr sd ws names w i j m0 = Inr m1" and
    rest: "foldM (\<lambda>(i, j). pair_body_r corr sd ws names w i j) ps m1 = Inr m"
    by (auto split: sum.splits)
  have ij: "i \<le> j" "j < n" "i < n" using Cons.prems(3) p by auto
  from pair_body_Inr_r [OF m1 Cons.prems(2) ij(3,2)] obtain v where
    v: "Cij_num_win_r corr sd ws names w i j = Inr v" and d1: "dims n m1" and
    e1: "\<forall>a<n. \<forall>b<n. m1 ! a ! b
           = (if (a = i \<and> b = j) \<or> (a = j \<and> b = i) then v else m0 ! a ! b)"
    by auto
  have ps: "\<forall>(i, j)\<in>set ps. i \<le> j \<and> j < n" using Cons.prems(3) by auto
  note IH = Cons.IH [OF rest d1 ps]
  have key: "(a = i \<and> b = j) \<or> (a = j \<and> b = i) \<longleftrightarrow> (min a b, max a b) = (i, j)" for a b
    using ij(1) by (auto simp: min_def max_def)
  have "\<forall>a<n. \<forall>b<n. m ! a ! b =
            (if (min a b, max a b) \<in> set (p # ps)
             then projr (Cij_num_win_r corr sd ws names w (min a b) (max a b))
             else m0 ! a ! b)"
  proof (intro allI impI)
    fix a b assume ab: "a < n" "b < n"
    show "m ! a ! b =
            (if (min a b, max a b) \<in> set (p # ps)
             then projr (Cij_num_win_r corr sd ws names w (min a b) (max a b))
             else m0 ! a ! b)"
    proof (cases "(min a b, max a b) \<in> set ps")
      case True
      then show ?thesis using IH ab by simp
    next
      case False
      then have "m ! a ! b = m1 ! a ! b" using IH ab by simp
      also have "\<dots> = (if (min a b, max a b) = (i, j) then v else m0 ! a ! b)"
        using e1 ab key [of a b] by simp
      finally show ?thesis using False v p by auto
    qed
  qed
  then show ?case using IH v p by auto
qed

lemma window_matrix_Inr_r:
  assumes "window_matrix_r corr sd ws names w = Inr m" and n: "n = length names"
  shows "dims n m
       \<and> (\<forall>i j. i \<le> j \<and> j < n \<longrightarrow>
             Cij_num_win_r corr sd ws names w i j = Inr (m ! i ! j) \<and> m ! j ! i = m ! i ! j)"
proof -
  from assms have f: "foldM (\<lambda>(i, j). pair_body_r corr sd ws names w i j) (pairs n) (zeros n n) = Inr m"
    by (simp add: window_matrix_r_def Let_def foldM_nested pairs_def)
  have "\<forall>(i, j)\<in>set (pairs n). i \<le> j \<and> j < n" by (simp add: set_pairs)
  note r = foldM_pairs_Inr_r [OF f dims_zeros this]
  show ?thesis
  proof (intro conjI allI impI)
    show "dims n m" using r by simp
  next
    fix i j assume ij: "i \<le> j \<and> j < n"
    then have mem: "(i, j) \<in> set (pairs n)" by (simp add: set_pairs)
    with r obtain v where v: "Cij_num_win_r corr sd ws names w i j = Inr v" by blast
    have mm: "min i j = i" "max i j = j" "min j i = i" "max j i = j" using ij by auto
    from r ij mem have "m ! i ! j = projr (Cij_num_win_r corr sd ws names w (min i j) (max i j))"
      by auto
    then have a: "m ! i ! j = v" using v mm by simp
    from r ij mem mm have "m ! j ! i = projr (Cij_num_win_r corr sd ws names w i j)"
      by (metis (no_types, lifting) le_less_trans)
    then have b: "m ! j ! i = v" using v by simp
    show "Cij_num_win_r corr sd ws names w i j = Inr (m ! i ! j)" using a v by simp
    show "m ! j ! i = m ! i ! j" using a b by simp
  qed
qed

lemma engine_Inr_r:
  assumes "calculate_correlation_matrices_per_window_r corr sd ws = Inr ms"
  shows "sd \<noteq> [] \<and> ws \<noteq> 0
       \<and> ms = map (\<lambda>w. \<lparr>index = map fst sd, columns = map fst sd,
                          matrix = projr (window_matrix_r corr sd ws (map fst sd) w)\<rparr>)
                 [0..<nat (int (length (instrument sd 0)) div ws)]
       \<and> (\<forall>w<nat (int (length (instrument sd 0)) div ws).
             \<exists>m. window_matrix_r corr sd ws (map fst sd) w = Inr m)"
proof (cases sd)
  case Nil
  with assms show ?thesis
    by (simp add: calculate_correlation_matrices_per_window_r_def list_index_def)
next
  case (Cons p rest)
  obtain k v where p: "p = (k, v)" by (cases p)
  have ws: "ws \<noteq> 0"
    using assms Cons p
    by (auto simp: calculate_correlation_matrices_per_window_r_def list_index_def
        getitem_first floordiv_def)
  from assms Cons p ws
  have "foldM (\<lambda>win_num correlation_matrices.
               ebind (window_matrix_r corr sd ws (map fst sd) win_num) (\<lambda>m.
                 Inr (correlation_matrices @
                      [\<lparr>index = map fst sd, columns = map fst sd, matrix = m\<rparr>])))
        [0..<nat (int (length v) div ws)] [] = Inr ms"
    by (simp add: calculate_correlation_matrices_per_window_r_def Let_def list_index_def
        getitem_first floordiv_def)
  from foldM_collect_Inr [OF this] Cons p ws show ?thesis
    by (simp add: instrument_0)
qed

lemma engine_length_r:
  assumes "calculate_correlation_matrices_per_window_r corr sd ws = Inr ms"
  shows "length ms = nat (int (length (instrument sd 0)) div ws)"
proof -
  let ?f = "\<lambda>w. \<lparr>index = map fst sd, columns = map fst sd,
                  matrix = projr (window_matrix_r corr sd ws (map fst sd) w)\<rparr>"
  have "ms = map ?f [0..<nat (int (length (instrument sd 0)) div ws)]"
    using engine_Inr_r [OF assms] by blast
  then have "length ms = length (map ?f [0..<nat (int (length (instrument sd 0)) div ws)])"
    by (rule arg_cong)
  then show ?thesis by simp
qed

lemma engine_entry_r:
  assumes "calculate_correlation_matrices_per_window_r corr sd ws = Inr ms"
    and "w < length ms" and "i \<le> j" and "j < length sd"
  shows "Cij_num_win_r corr sd ws (map fst sd) w i j = Inr (matrix (ms ! w) ! i ! j)
       \<and> matrix (ms ! w) ! j ! i = matrix (ms ! w) ! i ! j
       \<and> dims (length sd) (matrix (ms ! w))
       \<and> index (ms ! w) = map fst sd \<and> columns (ms ! w) = map fst sd"
proof -
  let ?K = "nat (int (length (instrument sd 0)) div ws)"
  note e = engine_Inr_r [OF assms(1)]
  have w: "w < ?K" using assms(2) engine_length_r [OF assms(1)] by simp
  with e obtain m where m: "window_matrix_r corr sd ws (map fst sd) w = Inr m" by blast
  have "ms ! w = \<lparr>index = map fst sd, columns = map fst sd,
                  matrix = projr (window_matrix_r corr sd ws (map fst sd) w)\<rparr>"
    using e w by simp
  then have mw: "matrix (ms ! w) = m" "index (ms ! w) = map fst sd"
    "columns (ms ! w) = map fst sd"
    using m by simp_all
  from window_matrix_Inr_r [OF m, of "length sd"] assms(3,4) mw show ?thesis by simp
qed

lemma Cij_eq_r:
  assumes "i < length sd" "j < length sd" "ws \<noteq> 0"
  shows "Cij_num_win_r corr sd ws (map fst sd) w i j =
     ebind (windows_of sd ws i) (\<lambda>window_i.
     ebind (windows_of sd ws j) (\<lambda>window_j.
     ebind (list_index window_i w) (\<lambda>wi.
       if 1 < length wi then
         ebind (list_index window_j w) (\<lambda>wj.
           if 1 < length wj then
             ebind (corr wi wj) (\<lambda>c. Inr (c ! 0 ! 1))
           else Inr NaN)
       else Inr NaN)))"
  using assms getitem_nth [OF assms(1)] getitem_nth [OF assms(2)]
  by (simp add: Cij_num_win_r_def list_index_def floordiv_def windows_of_def)

lemma engine_r_exact:
  "calculate_correlation_matrices_per_window_r corrcoef sd ws
     = calculate_correlation_matrices_per_window sd ws"
proof -
  have c: "Cij_num_win_r corrcoef = Cij_num_win"
    by (intro ext) (simp add: Cij_num_win_r_def Cij_num_win_def)
  have p: "pair_body_r corrcoef = pair_body"
    by (intro ext) (simp add: pair_body_r_def pair_body_def c)
  have w: "window_matrix_r corrcoef = window_matrix"
    by (intro ext) (simp add: window_matrix_r_def window_matrix_def p)
  show ?thesis
    by (simp add: calculate_correlation_matrices_per_window_r_def
        calculate_correlation_matrices_per_window_def w)
qed

subsection \<open>The relative error of a rounding\<close>

lemma round_half_even_bound: "\<bar>of_int (round_half_even x) - x\<bar> \<le> 1 / 2"
  unfolding round_half_even_def Let_def by (auto; linarith)

lemma floor_log2_bounds:
  assumes "0 < x"
  shows "2 powi \<lfloor>log 2 x\<rfloor> \<le> x" and "x < 2 powi (\<lfloor>log 2 x\<rfloor> + 1)"
proof -
  let ?k = "\<lfloor>log 2 x\<rfloor>"
  have a: "2 powr real_of_int ?k = (2::real) powi ?k"
    by (rule powr_real_of_int') simp_all
  have "2 powr real_of_int (?k + 1) = (2::real) powi (?k + 1)"
    by (rule powr_real_of_int') simp_all
  then have b: "2 powr (real_of_int ?k + 1) = (2::real) powi (?k + 1)"
    by (simp only: of_int_add of_int_1)
  have "2 powr real_of_int ?k \<le> x \<and> x < 2 powr (real_of_int ?k + 1)"
    using floor_log_eq_powr_iff [of x 2 ?k] assms by simp
  then show "2 powi ?k \<le> x" and "x < 2 powi (?k + 1)"
    unfolding a b by blast+
qed

lemma to_double_rel:
  assumes "2 powi (- 1022) \<le> x" and "x < 2 powi 1023"
  shows "\<exists>y. to_double x = Fin y \<and> x * (1 - unit_roundoff) \<le> y
           \<and> y \<le> x * (1 + unit_roundoff)"
proof -
  have x0: "0 < x"
    using assms(1) pow2_pos [of "- 1022"] by linarith
  define k where "k = \<lfloor>log 2 x\<rfloor>"
  have lo: "2 powi k \<le> x" and hi: "x < 2 powi (k + 1)"
    unfolding k_def using floor_log2_bounds [OF x0] by blast+
  have k1: "- 1022 \<le> k"
  proof (rule ccontr)
    assume "\<not> - 1022 \<le> k"
    then have "k + 1 \<le> - 1022" by simp
    then have "(2::real) powi (k + 1) \<le> 2 powi (- 1022)"
      by (rule power_int_increasing) simp
    with hi assms(1) show False by simp
  qed
  have k2: "k \<le> 1022"
  proof (rule ccontr)
    assume "\<not> k \<le> 1022"
    then have "1023 \<le> k" by simp
    then have "(2::real) powi 1023 \<le> 2 powi k"
      by (rule power_int_increasing) simp
    with lo assms(2) show False by simp
  qed
  define q :: real where "q = 2 powi (k - 52)"
  define n where "n = round_half_even (x / q)"
  have q0: "0 < q" by (simp add: q_def zero_less_power_int)
  have near: "\<bar>of_int n - x / q\<bar> \<le> 1 / 2"
    unfolding n_def by (rule round_half_even_bound)
  have q53: "2 ^ 53 * q = 2 powi (k + 1)" unfolding q_def by (rule pow2_shift) simp
  have q52: "2 ^ 52 * q = 2 powi k" unfolding q_def by (rule pow2_shift) simp
  have "x < 2 ^ 53 * q" using hi q53 by simp
  then have "x / q < 2 ^ 53" using q0 by (simp add: pos_divide_less_eq)
  then have "real_of_int n < 2 ^ 53 + 1" using near by linarith
  then have "real_of_int n < real_of_int (2 ^ 53 + 1)" by simp
  then have n1: "n < 2 ^ 53 + 1" by (simp only: of_int_less_iff)
  have "0 \<le> x / q" using x0 q0 by simp
  then have "- 1 < real_of_int n" using near by linarith
  then have n2: "- 1 < n" by linarith
  have nb: "\<bar>n\<bar> \<le> 2 ^ 53" using n1 n2 by simp
  have ax: "\<bar>x\<bar> = x" using x0 by simp
  have td: "to_double x = Fin (of_int n * q)"
    unfolding q_def
    by (rule to_double_eval [OF _ _ k1 k2 _ nb]) (simp_all add: ax lo hi n_def q_def)
  have "of_int n * q - x = (of_int n - x / q) * q" using q0 by (simp add: field_simps)
  then have "\<bar>of_int n * q - x\<bar> = \<bar>of_int n - x / q\<bar> * q"
    using q0 by (simp add: abs_mult)
  also have "\<dots> \<le> 1 / 2 * q" using near q0 by (intro mult_right_mono) simp_all
  finally have d: "\<bar>of_int n * q - x\<bar> \<le> q / 2" by simp
  have "2 ^ 52 * q \<le> x" using lo q52 by simp
  then have "q / 2 \<le> x * unit_roundoff" by (simp add: unit_roundoff_def)
  with d have "\<bar>of_int n * q - x\<bar> \<le> x * unit_roundoff" by simp
  then have "x * (1 - unit_roundoff) \<le> of_int n * q \<and> of_int n * q \<le> x * (1 + unit_roundoff)"
    by (simp add: algebra_simps abs_le_iff)
  with td show ?thesis by blast
qed

lemma to_double_pos_range:
  assumes "to_double x = Fin y" and "0 < y"
  shows "2 powi (- 1074) \<le> y" and "y < 2 powi 1024"
proof -
  define e where "e = max \<lfloor>log 2 \<bar>x\<bar>\<rfloor> (- 1022)"
  define q :: real where "q = 2 powi (e - 52)"
  define n where "n = round_half_even (x / q)"
  have x0: "x \<noteq> 0" using assms by auto
  have q0: "0 < q" by (simp add: q_def zero_less_power_int)
  from assms(1) x0 have y: "y = of_int n * q" and b: "\<not> 2 powi 1024 \<le> \<bar>of_int n * q\<bar>"
    by (auto simp: to_double_def Let_def e_def [symmetric] q_def [symmetric] n_def [symmetric]
        split: if_splits)
  from b assms(2) y show "y < 2 powi 1024" by simp
  have "0 < real_of_int n" using assms(2) y q0 by (simp add: zero_less_mult_iff)
  then have "1 \<le> n" by simp
  then have "real_of_int 1 \<le> real_of_int n" by (simp only: of_int_le_iff)
  then have "1 * q \<le> of_int n * q" using q0 by (intro mult_right_mono) simp_all
  then have "q \<le> y" unfolding y by (simp only: mult_1)
  moreover have "(2::real) powi (- 1074) \<le> q"
    unfolding q_def by (rule power_int_increasing) (simp_all add: e_def)
  ultimately show "2 powi (- 1074) \<le> y" by (rule order_trans [rotated])
qed

lemma sqrt_range:
  assumes "2 powi (- 1074) \<le> v" and "v < 2 powi 1024"
  shows "2 powi (- 537) \<le> sqrt v" and "sqrt v < 2 powi 512"
proof -
  have a: "(2::real) powi (- 537) * 2 powi (- 537) = 2 powi (- 1074)"
    by (subst power_int_add [symmetric]) simp_all
  have b: "(2::real) powi 512 * 2 powi 512 = 2 powi 1024"
    by (subst power_int_add [symmetric]) simp_all
  have p: "(0::real) \<le> 2 powi (- 537)" "(0::real) \<le> 2 powi 512"
    by (simp_all only: zero_le_power_int zero_le_numeral)
  have "sqrt (2 powi (- 537) * 2 powi (- 537)) \<le> sqrt v"
    unfolding a using assms(1) by (simp only: real_sqrt_le_iff)
  then show "2 powi (- 537) \<le> sqrt v"
    using p(1) by (simp only: real_sqrt_abs2 abs_of_nonneg)
  have "sqrt v < sqrt (2 powi 512 * 2 powi 512)"
    unfolding b using assms(2) by (simp only: real_sqrt_less_iff)
  then show "sqrt v < 2 powi 512"
    using p(2) by (simp only: real_sqrt_abs2 abs_of_nonneg)
qed

lemma roundoff_numbers:
  "0 < 1 - unit_roundoff" "1 - unit_roundoff \<le> 1" "1 / 2 \<le> 1 - unit_roundoff"
  "1 \<le> 1 + unit_roundoff" "1 + unit_roundoff \<le> 2"
  "1 / 2 \<le> (1 - unit_roundoff) / ((1 + unit_roundoff) * (1 + unit_roundoff))"
  "(1 + unit_roundoff) / ((1 - unit_roundoff) * (1 - unit_roundoff)) \<le> 2"
  "1 - 4 * unit_roundoff
     \<le> (1 - unit_roundoff) / ((1 + unit_roundoff) * (1 + unit_roundoff)) * (1 - unit_roundoff)"
  by (simp_all add: unit_roundoff_def)

lemma self_correlation_rounded:
  assumes "2 powi (- 1074) \<le> v" and "v < 2 powi 1024"
  shows "\<exists>r. clip1 (fdiv_r to_double (fdiv_r to_double (Fin v) (fsqrt_r to_double (Fin v)))
                  (fsqrt_r to_double (Fin v))) = Fin r
           \<and> 1 - 4 * unit_roundoff \<le> r \<and> r \<le> 1"
proof -
  define lo where "lo = 1 - unit_roundoff"
  define hi where "hi = 1 + unit_roundoff"
  note nums = roundoff_numbers [folded lo_def hi_def]
  have v0: "0 < v"
    using assms(1) pow2_pos [of "- 1074"] by linarith
  define S where "S = sqrt v"
  have S0: "0 < S" using v0 by (simp add: S_def)
  have SS: "S * S = v" using v0 by (simp add: S_def)
  have Sr: "2 powi (- 537) \<le> S" "S < 2 powi 512"
    unfolding S_def using sqrt_range [OF assms] by blast+
  have low: "(2::real) powi (- 1022) \<le> 2 powi (- 538)" "(2::real) powi (- 1022) \<le> 2 powi (- 537)"
    "(2::real) powi (- 1022) \<le> 2 powi (- 1)"
    by (rule power_int_increasing; simp)+
  have high: "(2::real) powi 512 \<le> 2 powi 1023" "(2::real) powi 513 \<le> 2 powi 1023"
    "(2::real) powi 2 \<le> 2 powi 1023"
    by (rule power_int_increasing; simp)+
  have half: "2 ^ 1 * (2::real) powi (- 538) = 2 powi (- 537)" "2 ^ 1 * (2::real) powi 512 = 2 powi 513"
    by (rule pow2_shift; simp)+
  \<comment> \<open>the square root\<close>
  have "2 powi (- 1022) \<le> S" "S < 2 powi 1023"
    using Sr low(2) high(1) by linarith+
  from to_double_rel [OF this] obtain s where
    s: "to_double S = Fin s" "S * lo \<le> s" "s \<le> S * hi"
    unfolding lo_def hi_def by blast
  have "0 < S * lo" using S0 nums(1) by simp
  with s(2) have s0: "0 < s" by linarith
  define t where "t = s / S"
  have t: "lo \<le> t" "t \<le> hi" "s = S * t" "0 < t"
    using s S0 s0 by (simp_all add: t_def pos_le_divide_eq pos_divide_le_eq mult.commute)
  have sq: "fsqrt_r to_double (Fin v) = Fin s"
    using v0 s(1) by (simp add: S_def)
  \<comment> \<open>the first division\<close>
  define a where "a = v / s"
  have a_eq: "a = S / t"
    using S0 t(4) unfolding a_def t(3) SS [symmetric] by simp
  have "S / 2 \<le> S / t"
    using t(2,4) nums(5) S0 by (intro divide_left_mono) simp_all
  then have a_lo: "S / 2 \<le> a" by (simp only: a_eq)
  have "S / t \<le> S / (1 / 2)"
    using t(1,4) nums(3) S0 by (intro divide_left_mono) simp_all
  then have a_hi: "a \<le> 2 * S" by (simp add: a_eq)
  have "2 powi (- 1022) \<le> a" "a < 2 powi 1023"
    using a_lo a_hi Sr low(1) high(2) half by simp_all
  from to_double_rel [OF this] obtain q1 where
    q1: "to_double a = Fin q1" "a * lo \<le> q1" "q1 \<le> a * hi"
    unfolding lo_def hi_def by blast
  have a0: "0 < a" using S0 t(4) by (simp add: a_eq)
  define t2 where "t2 = q1 / a"
  have t2: "lo \<le> t2" "t2 \<le> hi" "q1 = a * t2"
    using q1 a0 by (simp_all add: t2_def pos_le_divide_eq pos_divide_le_eq mult.commute)
  have d1: "fdiv_r to_double (Fin v) (Fin s) = Fin q1"
    using s0 q1(1) by (simp add: a_def)
  \<comment> \<open>the second division\<close>
  define b where "b = q1 / s"
  have b_eq: "b = t2 / (t * t)"
    using S0 t(4) unfolding b_def t2(3) a_eq t(3) by simp
  have tt: "lo * lo \<le> t * t" "t * t \<le> hi * hi" "0 < t * t" "0 < lo * lo"
    using t nums(1) by (simp_all add: mult_mono)
  have "lo / (hi * hi) \<le> t2 / (t * t)"
    using nums(1) t2(1) tt(2,3) by (intro frac_le) simp_all
  then have b_lo: "lo / (hi * hi) \<le> b" by (simp only: b_eq)
  have "t2 / (t * t) \<le> hi / (lo * lo)"
    using t2(1,2) nums(1) tt(1,4) by (intro frac_le) simp_all
  then have b_hi: "b \<le> hi / (lo * lo)" by (simp only: b_eq)
  have p1: "(2::real) powi (- 1) = 1 / 2" "(2::real) powi 2 = 4" by simp_all
  have "2 powi (- 1022) \<le> b" "b < 2 powi 1023"
    using b_lo b_hi nums(6,7) low(3) high(3) unfolding p1 by linarith+
  from to_double_rel [OF this] obtain q2 where
    q2: "to_double b = Fin q2" "b * lo \<le> q2" "q2 \<le> b * hi"
    unfolding lo_def hi_def by blast
  have d2: "fdiv_r to_double (Fin q1) (Fin s) = Fin q2"
    using s0 q2(1) by (simp add: b_def)
  \<comment> \<open>the bound\<close>
  have "lo / (hi * hi) * lo \<le> b * lo"
    using b_lo nums(1) by (intro mult_right_mono) simp_all
  with q2(2) nums(8) have q2_lo: "1 - 4 * unit_roundoff \<le> q2" by linarith
  have "- 1 \<le> 1 - 4 * unit_roundoff" by (simp add: unit_roundoff_def)
  with q2_lo have "- 1 \<le> q2" by linarith
  then have "clip1 (Fin q2) = Fin (min 1 q2)" by (simp add: max_def)
  moreover have "1 - 4 * unit_roundoff \<le> min 1 q2" "min 1 q2 \<le> 1"
    using q2_lo by (simp_all add: unit_roundoff_def)
  ultimately show ?thesis unfolding sq d1 d2 by blast
qed

subsection \<open>The self-correlation of a chunk\<close>

lemma np_cov_r_self:
  assumes "np_cov_r pack blas_dot x x = Inr c"
  shows "c ! 0 ! 1 = c ! 0 ! 0" and "c ! 1 ! 1 = c ! 0 ! 0"
    and "\<exists>d. c ! 0 ! 0 = fmul_r pack d (fdiv_r pack (Fin 1)
            (if real (length x) - 1 \<le> 0 then Fin 0 else Fin (real (length x) - 1)))"
  using assms by (auto simp: np_cov_r_def Let_def)

lemma fmul_r_pos_range:
  assumes "fmul_r to_double a b = Fin v" and "0 < v"
  shows "2 powi (- 1074) \<le> v" and "v < 2 powi 1024"
proof -
  from assms(1) obtain x where "to_double x = Fin v"
    by (cases a; cases b) (auto split: if_splits)
  from to_double_pos_range [OF this assms(2)]
  show "2 powi (- 1074) \<le> v" and "v < 2 powi 1024" by blast+
qed

lemma corrcoef_r_self:
  assumes "np_cov_r to_double blas_dot x x = Inr c" and "c ! 0 ! 0 = Fin v" and "0 < v"
  shows "\<exists>c' r. corrcoef_r to_double blas_dot x x = Inr c' \<and> c' ! 0 ! 1 = Fin r
           \<and> 1 - 4 * unit_roundoff \<le> r \<and> r \<le> 1"
proof -
  note e = np_cov_r_self [OF assms(1)]
  from e(3) assms(2) obtain d sc where "fmul_r to_double d sc = Fin v" by metis
  from fmul_r_pos_range [OF this assms(3)]
  have "2 powi (- 1074) \<le> v" and "v < 2 powi 1024" by blast+
  from self_correlation_rounded [OF this] obtain r where
    "clip1 (fdiv_r to_double (fdiv_r to_double (Fin v) (fsqrt_r to_double (Fin v)))
        (fsqrt_r to_double (Fin v))) = Fin r"
    and "1 - 4 * unit_roundoff \<le> r" and "r \<le> 1"
    by blast
  then show ?thesis
    using assms(1,2) e(1,2) by (simp add: corrcoef_r_def Let_def)
qed

lemma Cij_diag_r:
  assumes "Cij_num_win_r corr sd ws (map fst sd) w i i = Inr v"
    and "i < length sd" and "ws \<noteq> 0"
    and "windows_of sd ws i = Inr window_i" and "1 < length (window_i ! w)"
  shows "\<exists>c. corr (window_i ! w) (window_i ! w) = Inr c \<and> v = c ! 0 ! 1"
  using assms(1,4,5) unfolding Cij_eq_r [OF assms(2,2,3)]
  by (auto simp: list_index_def ebind_Inr_iff split: if_splits)

text \<open>
  C7, as amended.  In a matrix that the engine returns, the diagonal entry of instrument
  \<open>i\<close> is the \<open>np.corrcoef\<close> of its chunk with itself.  When the chunk has more than one
  element and its variance, the diagonal entry of the \<open>np.cov\<close> behind \<open>np.corrcoef\<close>, is
  a finite number greater than \<open>0\<close>, the entry is a finite number that is at most \<open>1\<close> and
  at least \<open>1 - 4u\<close>, where \<open>u = 2^(-53)\<close> is the unit roundoff of \<open>float64\<close>: the rounded
  square root and the two rounded divisions each change the value by a factor between
  \<open>1 - u\<close> and \<open>1 + u\<close>.  This holds whatever the products of the rows are that the BLAS
  library returns.
\<close>

theorem diagonal_near_one:
  assumes "calculate_correlation_matrices_per_window_r (corrcoef_r to_double blas_dot)
             stock_data window_size = Inr ms"
    and "w < length ms" and "i < length stock_data"
    and "windows_of stock_data window_size i = Inr window_i"
    and "1 < length (window_i ! w)"
    and "np_cov_r to_double blas_dot (window_i ! w) (window_i ! w) = Inr c"
    and "c ! 0 ! 0 = Fin v" and "0 < v"
  shows "\<exists>r. matrix (ms ! w) ! i ! i = Fin r \<and> 1 - 4 * unit_roundoff \<le> r \<and> r \<le> 1"
proof -
  have ws: "window_size \<noteq> 0" using engine_Inr_r [OF assms(1)] by blast
  from engine_entry_r [OF assms(1,2) le_refl assms(3)]
  have cii: "Cij_num_win_r (corrcoef_r to_double blas_dot) stock_data window_size
               (map fst stock_data) w i i = Inr (matrix (ms ! w) ! i ! i)"
    by simp
  from Cij_diag_r [OF cii assms(3) ws assms(4,5)] obtain c' where
    c': "corrcoef_r to_double blas_dot (window_i ! w) (window_i ! w) = Inr c'"
      "matrix (ms ! w) ! i ! i = c' ! 0 ! 1"
    by blast
  from corrcoef_r_self [OF assms(6,7,8)] c' show ?thesis by auto
qed

lemma roundings_correlation:
  "to_double (1 / 4) = Fin (1 / 4)"
  "to_double (- (1 / 2)) = Fin (- (1 / 2))"
  "to_double (1 / 2) = Fin (1 / 2)"
  "to_double (4503599627370496 / 6369051672525773) = Fin (1592262918131443 / 2251799813685248)"
  "to_double (6369051672525772 / 6369051672525773) = Fin (9007199254740991 / 9007199254740992)"
  using to_double_eval [of "- 2" "1 / 4" "4503599627370496"]
    to_double_eval [of "- 1" "- (1 / 2)" "- 4503599627370496"]
    to_double_eval [of "- 1" "1 / 2" "4503599627370496"]
    to_double_eval [of "- 1" "4503599627370496 / 6369051672525773" "6369051672525772"]
    to_double_eval [of "- 1" "6369051672525772 / 6369051672525773" "9007199254740991"]
  by (simp_all add: power_int_minus round_half_even_def Let_def)

lemma sqrt_half_rounded:
  "to_double (sqrt (1 / 2)) = Fin (6369051672525773 / 9007199254740992)"
proof -
  have lo: "(6369051672525773 - 1 / 2) / 2 ^ 53 < sqrt (1 / 2)"
    by (rule real_less_rsqrt) (simp add: power2_eq_square)
  have hi: "sqrt (1 / 2) < (6369051672525773 + 1 / 2) / 2 ^ 53"
    by (rule real_less_lsqrt) (simp_all add: power2_eq_square)
  define h where "h = sqrt (1 / 2)"
  have lo': "(6369051672525773 - 1 / 2) / 2 ^ 53 < h" and hi': "h < (6369051672525773 + 1 / 2) / 2 ^ 53"
    using lo hi by (simp_all only: h_def)
  have r: "round_half_even (h / 2 powi (- 1 - 52)) = 6369051672525773"
    by (rule round_half_even_near) (use lo' hi' in \<open>simp_all add: power_int_minus\<close>)
  have "to_double h = Fin (of_int 6369051672525773 * 2 powi (- 1 - 52))"
    by (rule to_double_eval [OF _ _ _ _ r]) (use lo' hi' in \<open>simp_all add: power_int_minus\<close>)
  then show ?thesis by (simp add: power_int_minus h_def)
qed

lemma engine_r_single:
  assumes "corr [x, y] [x, y] = Inr c"
  shows "calculate_correlation_matrices_per_window_r corr [(''AAA'', sample_frame [x, y])] 2
           = Inr [\<lparr>index = [''AAA''], columns = [''AAA''], matrix = [[c ! 0 ! 1]]\<rparr>]"
  using assms
  by (simp add: calculate_correlation_matrices_per_window_r_def Let_def list_index_def
      getitem_def floordiv_def window_matrix_r_def upt_rec pair_body_r_def Cij_num_win_r_def
      zeros_def setitem2_def sample_frame_def array_split_eq div_point_def slice_def)

lemma np_cov_r_example:
  "np_cov_r to_double (dot_r to_double) [Fin 0, Fin 1] [Fin 0, Fin 1]
     = Inr [[Fin (1 / 2), Fin (1 / 2)], [Fin (1 / 2), Fin (1 / 2)]]"
  by (simp add: np_cov_r_def dot_r_def np_mean_r_def np_sum_r_def pairwise_sum_short fsub_r_def
      Let_def roundings_integers roundings_correlation)

lemma corrcoef_r_example:
  "corrcoef_r to_double (dot_r to_double) [Fin 0, Fin 1] [Fin 0, Fin 1]
     = Inr [[Fin (1 - 1 / 2 ^ 53), Fin (1 - 1 / 2 ^ 53)],
            [Fin (1 - 1 / 2 ^ 53), Fin (1 - 1 / 2 ^ 53)]]"
  by (simp add: corrcoef_r_def np_cov_r_example Let_def sqrt_half_rounded roundings_correlation)

text \<open>
  C7, as stated, fails: the entry is \<open>1.0\<close> only up to rounding.  For one instrument with
  the chunk \<open>[0, 1]\<close> the variance is \<open>0.5\<close>, its square root is rounded to
  \<open>0.7071067811865476\<close>, \<open>0.5 / 0.7071067811865476\<close> to \<open>0.7071067811865475\<close>, and
  \<open>0.7071067811865475 / 0.7071067811865476\<close> to \<open>0.9999999999999999\<close>, which is
  \<open>1 - 2^(-53)\<close>.
\<close>

theorem diagonal_not_one_counterexample:
  "np_cov_r to_double (dot_r to_double) [Fin 0, Fin 1] [Fin 0, Fin 1]
     = Inr [[Fin (1 / 2), Fin (1 / 2)], [Fin (1 / 2), Fin (1 / 2)]]
   \<and> calculate_correlation_matrices_per_window_r (corrcoef_r to_double (dot_r to_double))
       [(''AAA'', sample_frame [Fin 0, Fin 1])] 2
     = Inr [\<lparr>index = [''AAA''], columns = [''AAA''], matrix = [[Fin (1 - 1 / 2 ^ 53)]]\<rparr>]"
  using engine_r_single [of "corrcoef_r to_double (dot_r to_double)" "Fin 0" "Fin 1",
      OF corrcoef_r_example] np_cov_r_example
  by simp

lemma np_cov_r_example2:
  "np_cov_r to_double (dot_r to_double) [Fin 1, Fin 3] [Fin 1, Fin 3]
     = Inr [[Fin 2, Fin 2], [Fin 2, Fin 2]]"
  by (simp add: np_cov_r_def dot_r_def np_mean_r_def np_sum_r_def pairwise_sum_short fsub_r_def
      Let_def roundings_integers)

lemma windows_of_example:
  "windows_of [(''AAA'', sample_frame [Fin 1, Fin 3])] 2 0 = Inr [[Fin 1, Fin 3]]"
  by (simp add: windows_of_def instrument_0 sample_frame_def array_split_eq div_point_def
      slice_def upt_rec)

theorem diagonal_near_one_witness:
  "\<exists>ms r. calculate_correlation_matrices_per_window_r (corrcoef_r to_double (dot_r to_double))
             [(''AAA'', sample_frame [Fin 1, Fin 3])] 2 = Inr ms
      \<and> length ms = 1
      \<and> np_cov_r to_double (dot_r to_double) [Fin 1, Fin 3] [Fin 1, Fin 3]
          = Inr [[Fin 2, Fin 2], [Fin 2, Fin 2]]
      \<and> matrix (ms ! 0) ! 0 ! 0 = Fin r \<and> 1 - 4 * unit_roundoff \<le> r \<and> r \<le> 1"
proof -
  let ?corr = "corrcoef_r to_double (dot_r to_double)"
  let ?sd = "[(''AAA'', sample_frame [Fin 1, Fin 3])]"
  obtain c where "?corr [Fin 1, Fin 3] [Fin 1, Fin 3] = Inr c"
    by (auto simp: corrcoef_r_def np_cov_r_example2)
  from engine_r_single [of ?corr "Fin 1" "Fin 3", OF this] obtain ms where
    ms: "calculate_correlation_matrices_per_window_r ?corr ?sd 2 = Inr ms" "length ms = 1"
    by simp
  have w: "0 < length ms" using ms(2) by simp
  have c: "np_cov_r to_double (dot_r to_double) ([[Fin 1, Fin 3]] ! 0) ([[Fin 1, Fin 3]] ! 0)
             = Inr [[Fin 2, Fin 2], [Fin 2, Fin 2]]"
    by (simp add: np_cov_r_example2)
  from diagonal_near_one [OF ms(1) w _ windows_of_example _ c, of 2] ms np_cov_r_example2
  show ?thesis by auto
qed

end
